theory Spec2Isabelle
  imports Main "HOL-Library.Word" "HOL-Library.AList"
begin

unbundle bit_operations_syntax

section \<open>Go values\<close>

text \<open>
  The generator \<^verbatim>\<open>gen_packetid.go\<close> works on Go's fixed-width integers, on strings
  (byte sequences) and on maps. Integers are words of their width, a string is a list of
  8-bit characters, and a Go \<^verbatim>\<open>map\<close> is an association list with distinct keys whose
  list order is the order in which a \<^verbatim>\<open>range\<close> statement visits the entries. Go leaves
  that order unspecified, so a statement about a map holds for the program only when it
  holds for every ordering of the list.
\<close>

type_synonym int32 = "32 word" \<comment> \<open>read as two's complement by \<open>sint\<close>\<close>
type_synonym int64 = "64 word" \<comment> \<open>likewise\<close>
type_synonym uint64 = "64 word"
type_synonym byte = "8 word"

text \<open>
  A function that may panic returns an \<open>outcome\<close>: the value it returns, or the panic
  that unwinds the goroutine.
\<close>

datatype numErr = ErrSyntax | ErrRange | ErrBase int | ErrBitSize int

record NumError =
  Func :: string
  Num :: string
  Err :: numErr

datatype panic =
    PanicError NumError \<comment> \<open>\<^verbatim>\<open>panic(err)\<close> in \<^verbatim>\<open>mustAtoi\<close>\<close>
  | PanicTypeAssertion \<comment> \<open>a failed \<^verbatim>\<open>x.(T)\<close>\<close>
  | PanicIndex \<comment> \<open>index out of range\<close>

datatype 'a outcome = Returns 'a | Panics panic

definition andThen :: "'a outcome \<Rightarrow> ('a \<Rightarrow> 'b outcome) \<Rightarrow> 'b outcome" where
  "andThen r f = (case r of Returns x \<Rightarrow> f x | Panics p \<Rightarrow> Panics p)"

section \<open>The standard library's integer parser\<close>

text \<open>
  \<^verbatim>\<open>mustAtoi\<close> calls \<^verbatim>\<open>strconv.ParseInt(num, 0, 32)\<close>. The function belongs to Go's
  standard library, not to this repository; the definitions of this section follow the
  library's source (\<^verbatim>\<open>strconv/atoi.go\<close>, Go 1.13 and later) statement by statement,
  with \<^verbatim>\<open>IntSize\<close> taken as 64.
\<close>

definition lower :: "byte \<Rightarrow> byte" where
  "lower c = c OR (0x78 - 0x58)" \<comment> \<open>\<^verbatim>\<open>c | ('x' - 'X')\<close>\<close>

definition syntaxError :: "string \<Rightarrow> string \<Rightarrow> NumError" where
  "syntaxError fn str = \<lparr>Func = fn, Num = str, Err = ErrSyntax\<rparr>"

definition rangeError :: "string \<Rightarrow> string \<Rightarrow> NumError" where
  "rangeError fn str = \<lparr>Func = fn, Num = str, Err = ErrRange\<rparr>"

definition baseError :: "string \<Rightarrow> string \<Rightarrow> int \<Rightarrow> NumError" where
  "baseError fn str base = \<lparr>Func = fn, Num = str, Err = ErrBase base\<rparr>"

definition bitSizeError :: "string \<Rightarrow> string \<Rightarrow> int \<Rightarrow> NumError" where
  "bitSizeError fn str bitSize = \<lparr>Func = fn, Num = str, Err = ErrBitSize bitSize\<rparr>"

text \<open>
  The loop of \<^verbatim>\<open>underscoreOK\<close> over the number proper. \<open>saw\<close> is the last kind of
  character seen: \<^verbatim>\<open>^\<close> at the beginning, \<^verbatim>\<open>0\<close> for a digit or a base prefix,
  \<^verbatim>\<open>_\<close> for an underscore, \<^verbatim>\<open>!\<close> for anything else.
\<close>

fun underscoreLoop :: "bool \<Rightarrow> char \<Rightarrow> string \<Rightarrow> bool" where
  "underscoreLoop hex saw [] = (saw \<noteq> CHR ''_'')"
| "underscoreLoop hex saw (c # s) =
     (let b = (of_char c :: byte) in
      if (0x30 \<le> b \<and> b \<le> 0x39) \<or> (hex \<and> 0x61 \<le> lower b \<and> lower b \<le> 0x66)
      then underscoreLoop hex (CHR ''0'') s
      else if c = CHR ''_''
      then (if saw \<noteq> CHR ''0'' then False else underscoreLoop hex (CHR ''_'') s)
      else if saw = CHR ''_'' then False
      else underscoreLoop hex (CHR ''!'') s)"

definition underscoreOK :: "string \<Rightarrow> bool" where
  "underscoreOK s0 =
     (let s = (if length s0 \<ge> 1 \<and> (hd s0 = CHR ''-'' \<or> hd s0 = CHR ''+'') then tl s0 else s0) in
      if length s \<ge> 2 \<and> s ! 0 = CHR ''0''
         \<and> (lower (of_char (s ! 1)) = 0x62 \<or> lower (of_char (s ! 1)) = 0x6F
              \<or> lower (of_char (s ! 1)) = 0x78)
      then underscoreLoop (lower (of_char (s ! 1)) = 0x78) (CHR ''0'') (drop 2 s)
      else underscoreLoop False (CHR ''^'') s)"

text \<open>
  The digit loop of \<^verbatim>\<open>ParseUint\<close>, with the statements that follow it. \<open>n\<close> is the
  \<^verbatim>\<open>uint64\<close> accumulator; its multiplication and addition wrap as the machine's do.
\<close>

fun parseDigits ::
  "bool \<Rightarrow> int \<Rightarrow> uint64 \<Rightarrow> uint64 \<Rightarrow> string \<Rightarrow> string \<Rightarrow> uint64 \<Rightarrow> bool
    \<Rightarrow> uint64 \<times> NumError option" where
  "parseDigits base0 base cutoff maxVal s0 [] n underscores =
     (if underscores \<and> \<not> underscoreOK s0 then (0, Some (syntaxError ''ParseUint'' s0))
      else (n, None))"
| "parseDigits base0 base cutoff maxVal s0 (ch # s) n underscores =
     (let c = (of_char ch :: byte) in
      if c = 0x5F \<and> base0 then parseDigits base0 base cutoff maxVal s0 s n True
      else if \<not> ((0x30 \<le> c \<and> c \<le> 0x39) \<or> (0x61 \<le> lower c \<and> lower c \<le> 0x7A))
      then (0, Some (syntaxError ''ParseUint'' s0))
      else
        let d = (if 0x30 \<le> c \<and> c \<le> 0x39 then c - 0x30 else lower c - 0x61 + 10) in
        if d \<ge> word_of_int base then (0, Some (syntaxError ''ParseUint'' s0))
        else if n \<ge> cutoff then (maxVal, Some (rangeError ''ParseUint'' s0))
        else
          let n' = n * word_of_int base; n1 = n' + ucast d in
          if n1 < n' \<or> n1 > maxVal then (maxVal, Some (rangeError ''ParseUint'' s0))
          else parseDigits base0 base cutoff maxVal s0 s n1 underscores)"

definition ParseUint :: "string \<Rightarrow> int \<Rightarrow> int \<Rightarrow> uint64 \<times> NumError option" where
  "ParseUint s0 base bitSize =
     (if s0 = [] then (0, Some (syntaxError ''ParseUint'' s0))
      else if \<not> (2 \<le> base \<and> base \<le> 36) \<and> base \<noteq> 0
      then (0, Some (baseError ''ParseUint'' s0 base))
      else
        let (base', s) =
          (if 2 \<le> base \<and> base \<le> 36 then (base, s0)
           else if hd s0 = CHR ''0'' then
             (if length s0 \<ge> 3 \<and> lower (of_char (s0 ! 1)) = 0x62 then (2, drop 2 s0)
              else if length s0 \<ge> 3 \<and> lower (of_char (s0 ! 1)) = 0x6F then (8, drop 2 s0)
              else if length s0 \<ge> 3 \<and> lower (of_char (s0 ! 1)) = 0x78 then (16, drop 2 s0)
              else (8, drop 1 s0))
           else (10, s0))
        in
        if bitSize \<noteq> 0 \<and> (bitSize < 0 \<or> bitSize > 64)
        then (0, Some (bitSizeError ''ParseUint'' s0 bitSize))
        else
          let bitSize' = (if bitSize = 0 then 64 else bitSize);
              cutoff = (-1 :: uint64) div word_of_int base' + 1;
              maxVal = push_bit (nat bitSize') (1 :: uint64) - 1
          in parseDigits (base = 0) base' cutoff maxVal s0 s 0 False)"

definition ParseInt :: "string \<Rightarrow> int \<Rightarrow> int \<Rightarrow> int64 \<times> NumError option" where
  "ParseInt s0 base bitSize =
     (if s0 = [] then (0, Some (syntaxError ''ParseInt'' s0))
      else
        let neg = (hd s0 = CHR ''-'');
            s = (if hd s0 = CHR ''+'' \<or> hd s0 = CHR ''-'' then tl s0 else s0)
        in
        case ParseUint s base bitSize of (un, err) \<Rightarrow>
          if err \<noteq> None \<and> Err (the err) \<noteq> ErrRange
          then (0, Some ((the err)\<lparr>Func := ''ParseInt'', Num := s0\<rparr>))
          else
            let bitSize' = (if bitSize = 0 then 64 else bitSize);
                cutoff = push_bit (nat (bitSize' - 1)) (1 :: uint64)
            in
            if \<not> neg \<and> un \<ge> cutoff then (ucast (cutoff - 1), Some (rangeError ''ParseInt'' s0))
            else if neg \<and> un > cutoff then (- ucast cutoff, Some (rangeError ''ParseInt'' s0))
            else (if neg then - ucast un else ucast un, None))"

section \<open>Parsing a mapping key\<close>

definition mustAtoi :: "string \<Rightarrow> int32 outcome" where
  "mustAtoi num =
     (case ParseInt num 0 32 of
        (n, Some err) \<Rightarrow> Panics (PanicError err)
      | (n, None) \<Rightarrow> Returns (ucast n))"

section \<open>The decoded protocol document\<close>

text \<open>
  \<^verbatim>\<open>encoding/json\<close> decodes a document into \<^verbatim>\<open>map[string]interface{}\<close>: every value
  is \<^verbatim>\<open>nil\<close>, a \<^verbatim>\<open>bool\<close>, a \<^verbatim>\<open>float64\<close>, a \<^verbatim>\<open>string\<close>, a \<^verbatim>\<open>[]interface{}\<close> or
  again a \<^verbatim>\<open>map[string]interface{}\<close>. No code path of the generator reads a number, so
  \<open>float64\<close> is left opaque.
\<close>

typedecl float64

datatype json =
    JNil
  | JBool bool
  | JNumber float64
  | JString string
  | JSlice "json list"
  | JMap "(string \<times> json) list"

type_synonym stringMap = "(string \<times> json) list"

text \<open>The dynamic type of a value, as the verb \<^verbatim>\<open>%T\<close> prints it.\<close>

datatype gotype = TNil | TBool | TFloat64 | TString | TSlice | TMap

fun typeOf :: "json \<Rightarrow> gotype" where
  "typeOf JNil = TNil"
| "typeOf (JBool b) = TBool"
| "typeOf (JNumber x) = TFloat64"
| "typeOf (JString s) = TString"
| "typeOf (JSlice xs) = TSlice"
| "typeOf (JMap kvs) = TMap"

text \<open>
  The errors the generator builds with \<^verbatim>\<open>fmt.Errorf\<close>, by their format string:
  \<open>KeyNotFound k\<close> is \<^verbatim>\<open>key %q not found\<close>, \<open>WrongType k t\<close> is
  \<^verbatim>\<open>key %q was %T, expected a string map\<close>, and \<open>Prefixed s e\<close> is \<^verbatim>\<open>s: %v\<close> around
  the error \<open>e\<close>.
\<close>

datatype error = KeyNotFound string | WrongType string gotype | Prefixed string error

text \<open>
  The expressions the traversal is written with: \<^verbatim>\<open>m[k]\<close> on a map (\<^verbatim>\<open>nil\<close> for a
  missing key), \<^verbatim>\<open>xs[i]\<close> on a slice, and the type assertions \<^verbatim>\<open>x.([]interface{})\<close>,
  \<^verbatim>\<open>x.(map[string]interface{})\<close> and \<^verbatim>\<open>x.(string)\<close>, each of which panics on any
  other dynamic type.
\<close>

definition field :: "stringMap \<Rightarrow> string \<Rightarrow> json" where
  "field m k = (case map_of m k of None \<Rightarrow> JNil | Some v \<Rightarrow> v)"

definition index :: "json list \<Rightarrow> nat \<Rightarrow> json outcome" where
  "index xs i = (if i < length xs then Returns (xs ! i) else Panics PanicIndex)"

fun asSlice :: "json \<Rightarrow> json list outcome" where
  "asSlice (JSlice xs) = Returns xs"
| "asSlice v = Panics PanicTypeAssertion"

fun asMap :: "json \<Rightarrow> stringMap outcome" where
  "asMap (JMap kvs) = Returns kvs"
| "asMap v = Panics PanicTypeAssertion"

fun asString :: "json \<Rightarrow> string outcome" where
  "asString (JString s) = Returns s"
| "asString v = Panics PanicTypeAssertion"

section \<open>unnest\<close>

fun unnest :: "stringMap \<Rightarrow> string list \<Rightarrow> error + stringMap" where
  "unnest input [] = Inr input"
| "unnest input (k # keys) =
     (case map_of input k of
        None \<Rightarrow> Inl (KeyNotFound k)
      | Some sub \<Rightarrow>
         (case sub of
            JMap next \<Rightarrow> unnest next keys
          | _ \<Rightarrow> Inl (WrongType k (typeOf sub))))"

section \<open>duplexMappings and EnsureUniqueNames\<close>

type_synonym table = "(int32 \<times> string) list" \<comment> \<open>\<^verbatim>\<open>map[int32]string\<close>\<close>

record duplexMappings =
  Clientbound :: table
  Serverbound :: table

text \<open>
  The first loop builds the reverse index \<^verbatim>\<open>clientBounds\<close>, a \<^verbatim>\<open>map[string]int32\<close>.
  \<open>AList.update k v\<close> is the assignment \<^verbatim>\<open>m[k] = v\<close>: it overwrites the entry of an
  existing key where it stands and adds a new key otherwise.
\<close>

definition clientBoundsOf :: "table \<Rightarrow> (string \<times> int32) list" where
  "clientBoundsOf cb =
     fold (\<lambda>(sk, sv) clientBounds. AList.update sv sk clientBounds) cb []"

text \<open>
  The body of the second loop at the serverbound key \<open>sk\<close>; \<open>sv\<close> is the value the map
  holds for \<open>sk\<close> when the loop reaches it.
\<close>

definition renameCollision ::
  "(string \<times> int32) list \<Rightarrow> int32 \<Rightarrow> duplexMappings \<Rightarrow> duplexMappings" where
  "renameCollision clientBounds sk m =
     (case map_of (Serverbound m) sk of
        None \<Rightarrow> m
      | Some sv \<Rightarrow>
         (case map_of clientBounds sv of
            Some ck \<Rightarrow>
              m\<lparr>Clientbound := AList.update ck (sv @ ''Clientbound'') (Clientbound m),
                Serverbound := AList.update sk (sv @ ''Serverbound'') (Serverbound m)\<rparr>
          | None \<Rightarrow> m))"

definition EnsureUniqueNames :: "duplexMappings \<Rightarrow> duplexMappings" where
  "EnsureUniqueNames m =
     fold (renameCollision (clientBoundsOf (Clientbound m))) (map fst (Serverbound m)) m"

section \<open>unpackMapping\<close>

text \<open>
  Lines 107 and 108 (and again 116 and 117): from the \<^verbatim>\<open>types\<close> section to the
  \<^verbatim>\<open>mappings\<close> object of the packet-ID field, by unchecked type assertions and index
  expressions.
\<close>

definition packetMappings :: "stringMap \<Rightarrow> stringMap outcome" where
  "packetMappings info =
     andThen (asSlice (field info ''packet'')) (\<lambda>packet.
     andThen (index packet 1) (\<lambda>fields.
     andThen (asSlice fields) (\<lambda>fields.
     andThen (index fields 0) (\<lambda>idField.
     andThen (asMap idField) (\<lambda>idField.
     let pType = field idField ''type'' in
     andThen (asSlice pType) (\<lambda>pType.
     andThen (index pType 1) (\<lambda>mapper.
     andThen (asMap mapper) (\<lambda>mapper.
     asMap (field mapper ''mappings'')))))))))"

text \<open>
  The loop \<^verbatim>\<open>for k, v := range mappings { out[mustAtoi(k)] = strcase.ToCamel(v.(string)) }\<close>.
  \<^verbatim>\<open>strcase.ToCamel\<close> belongs to the package \<^verbatim>\<open>github.com/iancoleman/strcase\<close>, not to
  this repository: it is the parameter \<open>toCamel\<close>. The call \<^verbatim>\<open>mustAtoi(k)\<close> is evaluated
  before the assertion \<^verbatim>\<open>v.(string)\<close>, the order of the compiler; for an entry on which
  both panic, Go does not say which panic is raised, and no statement below depends on it.
\<close>

fun fillTable :: "(string \<Rightarrow> string) \<Rightarrow> stringMap \<Rightarrow> table \<Rightarrow> table outcome" where
  "fillTable toCamel [] out = Returns out"
| "fillTable toCamel ((k, v) # mappings) out =
     (case mustAtoi k of
        Panics p \<Rightarrow> Panics p
      | Returns key \<Rightarrow>
         (case asString v of
            Panics p \<Rightarrow> Panics p
          | Returns name \<Rightarrow> fillTable toCamel mappings (AList.update key (toCamel name) out)))"

definition unpackMapping ::
  "(string \<Rightarrow> string) \<Rightarrow> stringMap \<Rightarrow> string \<Rightarrow> (error + duplexMappings) outcome" where
  "unpackMapping toCamel data gameState =
     (case unnest data [gameState, ''toClient'', ''types''] of
        Inl err \<Rightarrow> Returns (Inl err)
      | Inr info \<Rightarrow>
          andThen (packetMappings info) (\<lambda>mappings.
          andThen (fillTable toCamel mappings []) (\<lambda>clientbound.
            (case unnest data [gameState, ''toServer'', ''types''] of
               Inl err \<Rightarrow> Returns (Inl err)
             | Inr info \<Rightarrow>
                 andThen (packetMappings info) (\<lambda>mappings.
                 andThen (fillTable toCamel mappings []) (\<lambda>serverbound.
                   Returns (Inr \<lparr>Clientbound = clientbound, Serverbound = serverbound\<rparr>)))))))"

section \<open>downloadInfo\<close>

record protocolIDs =
  Login :: duplexMappings
  Play :: duplexMappings
  Status :: duplexMappings

text \<open>
  \<^verbatim>\<open>downloadInfo\<close> from line 151 on: \<open>data\<close> is the document that \<^verbatim>\<open>http.Get\<close> and the
  JSON decoder have delivered.
\<close>

definition downloadInfo ::
  "(string \<Rightarrow> string) \<Rightarrow> stringMap \<Rightarrow> (error + protocolIDs) outcome" where
  "downloadInfo toCamel data =
     andThen (unpackMapping toCamel data ''login'') (\<lambda>r.
       case r of
         Inl err \<Rightarrow> Returns (Inl (Prefixed ''login'' err))
       | Inr login \<Rightarrow>
           let login = EnsureUniqueNames login in
     andThen (unpackMapping toCamel data ''play'') (\<lambda>r.
       case r of
         Inl err \<Rightarrow> Returns (Inl (Prefixed ''play'' err))
       | Inr play \<Rightarrow>
           let play = EnsureUniqueNames play in
     andThen (unpackMapping toCamel data ''status'') (\<lambda>r.
       case r of
         Inl err \<Rightarrow> Returns (Inl (Prefixed ''play'' err))
       | Inr status \<Rightarrow>
           let status = EnsureUniqueNames status in
           Returns (Inr \<lparr>Login = login, Play = play, Status = status\<rparr>))))"

section \<open>Observations on tables\<close>

text \<open>
  What the claims say about a table: it is a map (no ID occurs twice), the set of its IDs,
  and the set of its names.
\<close>

definition isMap :: "('k \<times> 'v) list \<Rightarrow> bool" where
  "isMap t = distinct (map fst t)"

definition ids :: "table \<Rightarrow> int32 set" where
  "ids t = fst ` set t"

definition names :: "table \<Rightarrow> string set" where
  "names t = snd ` set t"

section \<open>Fixtures\<close>

text \<open>
  A state's section of the protocol document, in the shape of the upstream
  \<^verbatim>\<open>protocol.json\<close>: under \<^verbatim>\<open>types\<close>, the \<^verbatim>\<open>packet\<close> entry is a container whose first
  field, \<^verbatim>\<open>name\<close>, is a mapper from packet IDs to packet names.
\<close>

definition packetSection :: "stringMap \<Rightarrow> stringMap" where
  "packetSection mappings =
     [(''packet'',
       JSlice [JString ''container'',
         JSlice [JMap [(''name'', JString ''name''),
                       (''type'', JSlice [JString ''mapper'',
                          JMap [(''type'', JString ''varint''), (''mappings'', JMap mappings)]])],
                 JMap [(''name'', JString ''params''), (''type'', JNil)]]])]"

definition typesSection :: "stringMap \<Rightarrow> json" where
  "typesSection mappings = JMap [(''types'', JMap (packetSection mappings))]"

definition stateSection :: "stringMap \<Rightarrow> stringMap \<Rightarrow> json" where
  "stateSection toClient toServer =
     JMap [(''toClient'', typesSection toClient), (''toServer'', typesSection toServer)]"

text \<open>
  Modelled from the spec: \<^verbatim>\<open>strcase.ToCamel\<close> is a third-party function and its source is
  not in the repository; the spec calls its result "capitalized camel case". \<open>camel\<close> is
  one such function (the first letter and every letter after an underscore in upper case,
  underscores dropped). It only instantiates the parameter \<open>toCamel\<close> at concrete inputs;
  no general statement depends on it.
\<close>

definition upper :: "char \<Rightarrow> char" where
  "upper c =
     (if (0x61 :: nat) \<le> of_char c \<and> of_char c \<le> (0x7A :: nat)
      then char_of (of_char c - (0x20 :: nat)) else c)"

fun camelFrom :: "bool \<Rightarrow> string \<Rightarrow> string" where
  "camelFrom capNext [] = []"
| "camelFrom capNext (c # s) =
     (if c = CHR ''_'' then camelFrom True s
      else (if capNext then upper c else c) # camelFrom False s)"

definition camel :: "string \<Rightarrow> string" where
  "camel s = camelFrom True s"

section \<open>Numerals\<close>

text \<open>
  The texts of a natural number that the claims on \<^verbatim>\<open>mustAtoi\<close> speak of: its decimal
  and its hexadecimal numeral, most significant digit first, without leading zeros, the
  hexadecimal digits in lower case.
\<close>

definition digitChar :: "nat \<Rightarrow> char" where
  "digitChar d = ''0123456789abcdefghijklmnopqrstuvwxyz'' ! d"

function digitsOf :: "nat \<Rightarrow> nat \<Rightarrow> nat list" where
  "digitsOf b n = (if n < b \<or> b < 2 then [n] else digitsOf b (n div b) @ [n mod b])"
  by pat_completeness auto
termination
  by (relation "measure snd") auto

declare digitsOf.simps [simp del]

definition decimal :: "nat \<Rightarrow> string" where
  "decimal n = map digitChar (digitsOf 10 n)"

definition hexadecimal :: "nat \<Rightarrow> string" where
  "hexadecimal n = map digitChar (digitsOf 16 n)"

section \<open>The reverse index\<close>

text \<open>
  After the first loop, \<^verbatim>\<open>clientBounds\<close> maps a name to the ID of the last clientbound
  entry, in the order of the loop, that carries the name.
\<close>

lemma clientBounds_fold:
  "map_of (fold (\<lambda>(sk, sv) clientBounds. AList.update sv sk clientBounds) cb acc) n =
     (if n \<in> snd ` set cb then Some (last (map fst (filter (\<lambda>(k, v). v = n) cb))) else map_of acc n)"
proof (induction cb arbitrary: acc)
  case Nil
  then show ?case by simp
next
  case (Cons x cb)
  obtain k v where x: "x = (k, v)" by (cases x)
  show ?case
    using Cons.IH [of "AList.update v k acc"]
    by (auto simp: x update_conv' image_iff filter_empty_conv)
qed

lemma map_of_clientBoundsOf:
  "map_of (clientBoundsOf cb) n =
     (if n \<in> snd ` set cb then Some (last (map fst (filter (\<lambda>(k, v). v = n) cb))) else None)"
  by (simp add: clientBoundsOf_def clientBounds_fold)

lemma clientBoundsOf_Some:
  assumes "map_of (clientBoundsOf cb) n = Some k"
  shows "(k, n) \<in> set cb"
proof -
  let ?xs = "filter (\<lambda>(k, v). v = n) cb"
  from assms have "n \<in> snd ` set cb" and k: "k = last (map fst ?xs)"
    by (auto simp: map_of_clientBoundsOf split: if_splits)
  then have ne: "?xs \<noteq> []" by (auto simp: filter_empty_conv)
  then have "last ?xs \<in> set ?xs" by (rule last_in_set)
  moreover have "k = fst (last ?xs)" using k ne by (simp add: last_map)
  ultimately have "(k, snd (last ?xs)) \<in> set ?xs" by simp
  then show ?thesis by auto
qed

lemma clientBoundsOf_None:
  "map_of (clientBoundsOf cb) n = None \<longleftrightarrow> n \<notin> snd ` set cb"
  by (simp add: map_of_clientBoundsOf)

section \<open>The second loop in closed form\<close>

text \<open>
  On maps, the two loops of \<^verbatim>\<open>EnsureUniqueNames\<close> amount to one pass over each table:
  a serverbound name that some clientbound entry carries gets the suffix
  \<^verbatim>\<open>Serverbound\<close>, and the clientbound entry that the reverse index holds for such a name
  gets the suffix \<^verbatim>\<open>Clientbound\<close>. The invariant of the second loop is stated for a
  split \<open>ys @ xs\<close> of the serverbound table into the entries already visited and those
  still to come.
\<close>

lemma update_map_value:
  assumes "distinct (map fst t)" and "(ck, cv) \<in> set t"
  shows "AList.update ck w (map (\<lambda>(k, v). (k, h k v)) t) =
         map (\<lambda>(k, v). (k, if k = ck then w else h k v)) t"
  using assms
proof (induction t)
  case Nil
  then show ?case by simp
next
  case (Cons x t)
  obtain k v where x: "x = (k, v)" by (cases x)
  show ?case
  proof (cases "k = ck")
    case True
    then have "ck \<notin> fst ` set t" using Cons.prems x by auto
    then have "map (\<lambda>(k, v). (k, if k = ck then w else h k v)) t = map (\<lambda>(k, v). (k, h k v)) t"
      by (intro map_cong) (auto simp: image_iff)
    then show ?thesis using True x by simp
  next
    case False
    then show ?thesis using Cons x by auto
  qed
qed

lemma update_append_fresh:
  "k \<notin> fst ` set ys \<Longrightarrow> AList.update k v (ys @ xs) = ys @ AList.update k v xs"
  by (induction ys) auto

lemma map_of_append_fresh:
  "k \<notin> fst ` set ys \<Longrightarrow> map_of (ys @ xs) k = map_of xs k"
  by (induction ys) auto


lemma renameCollision_fold:
  fixes C :: table and cbs h g
  defines "cbs \<equiv> clientBoundsOf C"
  defines "h \<equiv> (\<lambda>T (ck :: int32) cv. if cv \<in> T \<and> map_of cbs cv = Some ck then cv @ ''Clientbound'' else cv)"
  defines "g \<equiv> (\<lambda>(sk :: int32, sv). (sk, if sv \<in> snd ` set C then sv @ ''Serverbound'' else sv))"
  assumes C: "distinct (map fst C)" and S: "distinct (map fst (ys @ xs))"
  shows "fold (renameCollision cbs) (map fst xs)
           \<lparr>Clientbound = map (\<lambda>(k, v). (k, h (snd ` set ys) k v)) C, Serverbound = map g ys @ xs\<rparr> =
         \<lparr>Clientbound = map (\<lambda>(k, v). (k, h (snd ` set (ys @ xs)) k v)) C, Serverbound = map g (ys @ xs)\<rparr>"
  using S
proof (induction xs arbitrary: ys)
  case Nil
  then show ?case by simp
next
  case (Cons x xs)
  obtain sk sv where x: "x = (sk, sv)" by (cases x)
  have fresh: "sk \<notin> fst ` set (map g ys)"
    using Cons.prems x by (auto simp: g_def image_iff split: prod.splits)
  have look: "map_of (map g ys @ (sk, sv) # xs) sk = Some sv"
    using map_of_append_fresh [OF fresh, of "(sk, sv) # xs"] by simp
  have step: "renameCollision cbs sk
           \<lparr>Clientbound = map (\<lambda>(k, v). (k, h (snd ` set ys) k v)) C, Serverbound = map g ys @ x # xs\<rparr> =
         \<lparr>Clientbound = map (\<lambda>(k, v). (k, h (snd ` set (ys @ [x])) k v)) C, Serverbound = map g (ys @ [x]) @ xs\<rparr>"
  proof (cases "map_of cbs sv")
    case None
    then have nin: "sv \<notin> snd ` set C" by (simp add: cbs_def clientBoundsOf_None)
    have "h (snd ` set (ys @ [x])) = h (snd ` set ys)"
      using None by (auto simp: h_def x fun_eq_iff)
    then show ?thesis
      using None nin look by (simp add: renameCollision_def x g_def)
  next
    case (Some ck)
    then have mem: "(ck, sv) \<in> set C" by (simp add: cbs_def clientBoundsOf_Some)
    then have inC: "sv \<in> snd ` set C" by force
    have "AList.update ck (sv @ ''Clientbound'') (map (\<lambda>(k, v). (k, h (snd ` set ys) k v)) C) =
          map (\<lambda>(k, v). (k, if k = ck then sv @ ''Clientbound'' else h (snd ` set ys) k v)) C"
      by (rule update_map_value [OF C mem])
    also have "\<dots> = map (\<lambda>(k, v). (k, h (snd ` set (ys @ [x])) k v)) C"
    proof (rule map_cong [OF refl])
      fix e assume e: "e \<in> set C"
      obtain k v where kv: "e = (k, v)" by (cases e)
      have "k = ck \<Longrightarrow> v = sv"
        using C e mem kv by (metis eq_key_imp_eq_value)
      then show "(case e of (k, v) \<Rightarrow> (k, if k = ck then sv @ ''Clientbound'' else h (snd ` set ys) k v)) =
            (case e of (k, v) \<Rightarrow> (k, h (snd ` set (ys @ [x])) k v))"
        using Some by (auto simp: kv h_def x)
    qed
    finally have cl: "AList.update ck (sv @ ''Clientbound'') (map (\<lambda>(k, v). (k, h (snd ` set ys) k v)) C) =
       map (\<lambda>(k, v). (k, h (snd ` set (ys @ [x])) k v)) C" .
    have sv: "AList.update sk (sv @ ''Serverbound'') (map g ys @ (sk, sv) # xs) =
       map g ys @ (sk, sv @ ''Serverbound'') # xs"
      using fresh by (simp add: update_append_fresh)
    show ?thesis
      using Some look cl sv inC by (simp add: renameCollision_def x g_def)
  qed
  have "distinct (map fst ((ys @ [x]) @ xs))" using Cons.prems by simp
  from Cons.IH [OF this] have
    "fold (renameCollision cbs) (map fst xs)
       \<lparr>Clientbound = map (\<lambda>(k, v). (k, h (snd ` set (ys @ [x])) k v)) C, Serverbound = map g (ys @ [x]) @ xs\<rparr> =
     \<lparr>Clientbound = map (\<lambda>(k, v). (k, h (snd ` set (ys @ x # xs)) k v)) C, Serverbound = map g (ys @ x # xs)\<rparr>"
    by simp
  moreover have "fst x = sk" by (simp add: x)
  ultimately show ?case using step by (simp del: map_append set_append)
qed

lemma EnsureUniqueNames_eq:
  assumes "isMap (Clientbound m)" and "isMap (Serverbound m)"
  shows "EnsureUniqueNames m =
    \<lparr>Clientbound =
       map (\<lambda>(k, v). (k, if v \<in> names (Serverbound m) \<and> map_of (clientBoundsOf (Clientbound m)) v = Some k
                           then v @ ''Clientbound'' else v)) (Clientbound m),
     Serverbound =
       map (\<lambda>(k, v). (k, if v \<in> names (Clientbound m) then v @ ''Serverbound'' else v)) (Serverbound m)\<rparr>"
proof -
  obtain C S where m: "m = \<lparr>Clientbound = C, Serverbound = S\<rparr>" by (cases m) simp
  have "distinct (map fst C)" "distinct (map fst ([] @ S))"
    using assms by (simp_all add: isMap_def m)
  from renameCollision_fold [OF this] show ?thesis
    by (simp add: EnsureUniqueNames_def names_def m)
qed

lemma map_of_map_value:
  "map_of (map (\<lambda>(k, v). (k, f k v)) t) k = map_option (f k) (map_of t k)"
  by (induction t) auto

lemma Clientbound_after:
  assumes "isMap (Clientbound m)" and "isMap (Serverbound m)"
  shows "Clientbound (EnsureUniqueNames m) =
       map (\<lambda>(k, v). (k, if v \<in> names (Serverbound m) \<and> map_of (clientBoundsOf (Clientbound m)) v = Some k
                           then v @ ''Clientbound'' else v)) (Clientbound m)"
  by (simp add: EnsureUniqueNames_eq [OF assms])

lemma Serverbound_after:
  assumes "isMap (Clientbound m)" and "isMap (Serverbound m)"
  shows "Serverbound (EnsureUniqueNames m) =
       map (\<lambda>(k, v). (k, if v \<in> names (Clientbound m) then v @ ''Serverbound'' else v)) (Serverbound m)"
  by (simp add: EnsureUniqueNames_eq [OF assms])

lemma keys_after:
  assumes "isMap (Clientbound m)" and "isMap (Serverbound m)"
  shows "map fst (Clientbound (EnsureUniqueNames m)) = map fst (Clientbound m)"
    and "map fst (Serverbound (EnsureUniqueNames m)) = map fst (Serverbound m)"
  by (simp_all add: Clientbound_after [OF assms] Serverbound_after [OF assms] case_prod_unfold comp_def)

lemma isMap_after:
  assumes "isMap (Clientbound m)" and "isMap (Serverbound m)"
  shows "isMap (Clientbound (EnsureUniqueNames m))" and "isMap (Serverbound (EnsureUniqueNames m))"
  using assms by (simp_all add: isMap_def keys_after [OF assms])

lemma suffixes_differ: "v @ ''Clientbound'' \<noteq> w @ ''Serverbound''"
  by simp

lemma disjoint_after:
  assumes C: "isMap (Clientbound m)" and S: "isMap (Serverbound m)"
    and fresh: "\<forall>n \<in> names (Clientbound m) \<inter> names (Serverbound m).
        n @ ''Serverbound'' \<notin> names (Clientbound m) \<and> n @ ''Clientbound'' \<notin> names (Serverbound m)"
  shows "names (Clientbound (EnsureUniqueNames m)) \<inter> names (Serverbound (EnsureUniqueNames m)) = {}"
proof (rule ccontr)
  assume "\<not> ?thesis"
  then obtain x where xc: "x \<in> names (Clientbound (EnsureUniqueNames m))"
    and xs: "x \<in> names (Serverbound (EnsureUniqueNames m))" by auto
  from xc obtain k v where kv: "(k, v) \<in> set (Clientbound m)"
    and x1: "x = (if v \<in> names (Serverbound m) \<and> map_of (clientBoundsOf (Clientbound m)) v = Some k
                 then v @ ''Clientbound'' else v)"
    unfolding Clientbound_after [OF C S] names_def [of "map f t" for f t] by auto
  from kv have v: "v \<in> names (Clientbound m)" by (force simp: names_def)
  from x1 have xv: "x = v \<or> (x = v @ ''Clientbound'' \<and> v \<in> names (Serverbound m))"
    by (simp split: if_splits)
  from xs obtain k' w where kw: "(k', w) \<in> set (Serverbound m)"
    and x2: "x = (if w \<in> names (Clientbound m) then w @ ''Serverbound'' else w)"
    unfolding Serverbound_after [OF C S] names_def [of "map f t" for f t] by auto
  from kw have w: "w \<in> names (Serverbound m)" by (force simp: names_def)
  from x2 have xw: "(x = w \<and> w \<notin> names (Clientbound m)) \<or> (x = w @ ''Serverbound'' \<and> w \<in> names (Clientbound m))"
    by (simp split: if_splits)
  from xv xw v w fresh show False
    by (elim disjE conjE) (use suffixes_differ in blast)+
qed

lemma unchanged_if_disjoint:
  assumes "names (Clientbound m) \<inter> names (Serverbound m) = {}"
  shows "EnsureUniqueNames m = m"
proof -
  have step: "renameCollision (clientBoundsOf (Clientbound m)) sk m = m" for sk
  proof (cases "map_of (Serverbound m) sk")
    case None
    then show ?thesis by (simp add: renameCollision_def)
  next
    case (Some sv)
    then have "sv \<in> names (Serverbound m)"
      by (force simp: names_def dest: map_of_SomeD)
    then have "sv \<notin> snd ` set (Clientbound m)"
      using assms by (auto simp: names_def)
    then have "map_of (clientBoundsOf (Clientbound m)) sv = None"
      by (simp add: clientBoundsOf_None)
    then show ?thesis using Some by (simp add: renameCollision_def)
  qed
  have "fold (renameCollision (clientBoundsOf (Clientbound m))) ks m = m" for ks
    by (induction ks) (simp_all add: step)
  then show ?thesis by (simp add: EnsureUniqueNames_def)
qed

lemma lookup_Clientbound_after:
  assumes C: "isMap (Clientbound m)" and S: "isMap (Serverbound m)"
  shows "map_of (Clientbound (EnsureUniqueNames m)) k =
     map_option (\<lambda>v. if v \<in> names (Serverbound m) \<and> map_of (clientBoundsOf (Clientbound m)) v = Some k
                           then v @ ''Clientbound'' else v) (map_of (Clientbound m) k)"
  unfolding Clientbound_after [OF C S] by (rule map_of_map_value)

lemma lookup_Serverbound_after:
  assumes C: "isMap (Clientbound m)" and S: "isMap (Serverbound m)"
  shows "map_of (Serverbound (EnsureUniqueNames m)) k =
     map_option (\<lambda>v. if v \<in> names (Clientbound m) then v @ ''Serverbound'' else v) (map_of (Serverbound m) k)"
  unfolding Serverbound_after [OF C S] by (rule map_of_map_value)

lemma hd_neq_last:
  assumes "distinct xs" and "a \<in> set xs" and "b \<in> set xs" and "a \<noteq> b"
  shows "hd xs \<noteq> last xs"
proof (cases xs)
  case Nil
  then show ?thesis using assms by simp
next
  case (Cons x ys)
  then have "ys \<noteq> []" using assms by auto
  then have "last xs \<in> set ys" using Cons by simp
  then show ?thesis using assms Cons by auto
qed

lemma map_of_rev_distinct:
  "distinct (map fst t) \<Longrightarrow> map_of (rev t) = map_of t"
  by (rule ext) (metis distinct_rev map_of_eq_Some_iff map_of_eq_None_iff not_None_eq rev_map set_rev)

section \<open>Claims on the Disambiguator\<close>

text \<open>
  C1. The claim reads: after \<^verbatim>\<open>EnsureUniqueNames\<close> has run once, no name appears in both
  tables. It fails where a suffixed name is already present on the other side: with Clientbound \<open>{1: KeepAlive}\<close> and Serverbound
  \<open>{1: KeepAlive, 2: KeepAliveClientbound}\<close> the clientbound entry is renamed to
  \<open>KeepAliveClientbound\<close>, which the serverbound entry 2 still carries.
\<close>

theorem EnsureUniqueNames_shared_name_counterexample:
  "isMap [(1 :: int32, ''KeepAlive'')]
   \<and> isMap [(1 :: int32, ''KeepAlive''), (2, ''KeepAliveClientbound'')]
   \<and> ''KeepAliveClientbound'' \<in>
       names (Clientbound (EnsureUniqueNames
          \<lparr>Clientbound = [(1, ''KeepAlive'')],
           Serverbound = [(1, ''KeepAlive''), (2, ''KeepAliveClientbound'')]\<rparr>))
     \<inter> names (Serverbound (EnsureUniqueNames
          \<lparr>Clientbound = [(1, ''KeepAlive'')],
           Serverbound = [(1, ''KeepAlive''), (2, ''KeepAliveClientbound'')]\<rparr>))"
  by (simp add: isMap_def names_def EnsureUniqueNames_def clientBoundsOf_def renameCollision_def)

text \<open>
  C1, as amended. For tables that are maps, if for every name \<open>n\<close> that occurs in both
  tables neither \<open>n @ ''Serverbound''\<close> is a clientbound name nor \<open>n @ ''Clientbound''\<close> a
  serverbound name, then after \<^verbatim>\<open>EnsureUniqueNames\<close> no name occurs in both tables.
\<close>

theorem EnsureUniqueNames_no_shared_name:
  assumes "isMap (Clientbound m)" and "isMap (Serverbound m)"
    and "\<forall>n \<in> names (Clientbound m) \<inter> names (Serverbound m).
        n @ ''Serverbound'' \<notin> names (Clientbound m) \<and> n @ ''Clientbound'' \<notin> names (Serverbound m)"
  shows "names (Clientbound (EnsureUniqueNames m)) \<inter> names (Serverbound (EnsureUniqueNames m)) = {}"
  using assms by (rule disjoint_after)

theorem EnsureUniqueNames_no_shared_name_witness:
  "isMap [(0x1F :: int32, ''KeepAlive''), (0, ''SpawnEntity'')]
   \<and> isMap [(0x10 :: int32, ''KeepAlive''), (0, ''TeleportConfirm'')]
   \<and> ''KeepAlive'' \<in> names [(0x1F, ''KeepAlive''), (0, ''SpawnEntity'')] \<inter> names [(0x10, ''KeepAlive''), (0, ''TeleportConfirm'')]
   \<and> names (Clientbound (EnsureUniqueNames
        \<lparr>Clientbound = [(0x1F, ''KeepAlive''), (0, ''SpawnEntity'')],
         Serverbound = [(0x10, ''KeepAlive''), (0, ''TeleportConfirm'')]\<rparr>))
     \<inter> names (Serverbound (EnsureUniqueNames
        \<lparr>Clientbound = [(0x1F, ''KeepAlive''), (0, ''SpawnEntity'')],
         Serverbound = [(0x10, ''KeepAlive''), (0, ''TeleportConfirm'')]\<rparr>)) = {}"
  using EnsureUniqueNames_no_shared_name [of "\<lparr>Clientbound = [(0x1F, ''KeepAlive''), (0, ''SpawnEntity'')],
         Serverbound = [(0x10, ''KeepAlive''), (0, ''TeleportConfirm'')]\<rparr>"]
  by (simp add: isMap_def names_def)

text \<open>
  C3. The claim reads: on Clientbound \<open>{5: keep_alive}\<close> and Serverbound
  \<open>{7: keep_alive}\<close> the Disambiguator produces \<open>{5: KeepAliveClientbound}\<close> and
  \<open>{7: KeepAliveServerbound}\<close>. \<^verbatim>\<open>EnsureUniqueNames\<close> appends a suffix and never changes
  the case of a name, so on these two tables the result is another one.
\<close>

theorem EnsureUniqueNames_keep_alive_counterexample:
  "EnsureUniqueNames \<lparr>Clientbound = [(5, ''keep_alive'')], Serverbound = [(7, ''keep_alive'')]\<rparr>
     \<noteq> \<lparr>Clientbound = [(5, ''KeepAliveClientbound'')], Serverbound = [(7, ''KeepAliveServerbound'')]\<rparr>"
  by (simp add: EnsureUniqueNames_def clientBoundsOf_def renameCollision_def)

text \<open>
  C3, as amended. On the tables the Extractor builds from the raw name, Clientbound
  \<open>{5: KeepAlive}\<close> and Serverbound \<open>{7: KeepAlive}\<close>, \<^verbatim>\<open>EnsureUniqueNames\<close> produces
  \<open>{5: KeepAliveClientbound}\<close> and \<open>{7: KeepAliveServerbound}\<close>: both names are suffixed
  and both IDs are kept. On the raw names themselves it produces
  \<open>keep_aliveClientbound\<close> and \<open>keep_aliveServerbound\<close>.
\<close>

theorem EnsureUniqueNames_keep_alive:
  "EnsureUniqueNames \<lparr>Clientbound = [(5, ''KeepAlive'')], Serverbound = [(7, ''KeepAlive'')]\<rparr>
     = \<lparr>Clientbound = [(5, ''KeepAliveClientbound'')], Serverbound = [(7, ''KeepAliveServerbound'')]\<rparr>
   \<and> EnsureUniqueNames \<lparr>Clientbound = [(5, ''keep_alive'')], Serverbound = [(7, ''keep_alive'')]\<rparr>
     = \<lparr>Clientbound = [(5, ''keep_aliveClientbound'')], Serverbound = [(7, ''keep_aliveServerbound'')]\<rparr>"
  by (simp add: EnsureUniqueNames_def clientBoundsOf_def renameCollision_def)

text \<open>
  C4. For tables that are maps, \<^verbatim>\<open>EnsureUniqueNames\<close> keeps the set of IDs of both tables,
  removes no entry (the tables keep their lengths and remain maps), and leaves unchanged
  every entry whose name does not occur in both tables.
\<close>

theorem EnsureUniqueNames_frame:
  assumes C: "isMap (Clientbound m)" and S: "isMap (Serverbound m)"
  shows "ids (Clientbound (EnsureUniqueNames m)) = ids (Clientbound m)
       \<and> ids (Serverbound (EnsureUniqueNames m)) = ids (Serverbound m)
       \<and> length (Clientbound (EnsureUniqueNames m)) = length (Clientbound m)
       \<and> length (Serverbound (EnsureUniqueNames m)) = length (Serverbound m)
       \<and> isMap (Clientbound (EnsureUniqueNames m))
       \<and> isMap (Serverbound (EnsureUniqueNames m))
       \<and> (\<forall>k n. map_of (Clientbound m) k = Some n \<and> n \<notin> names (Serverbound m)
             \<longrightarrow> map_of (Clientbound (EnsureUniqueNames m)) k = Some n)
       \<and> (\<forall>k n. map_of (Serverbound m) k = Some n \<and> n \<notin> names (Clientbound m)
             \<longrightarrow> map_of (Serverbound (EnsureUniqueNames m)) k = Some n)"
proof -
  have "ids (Clientbound (EnsureUniqueNames m)) = ids (Clientbound m)"
    and "ids (Serverbound (EnsureUniqueNames m)) = ids (Serverbound m)"
    using keys_after [OF C S] by (simp_all add: ids_def flip: set_map)
  moreover have "length (Clientbound (EnsureUniqueNames m)) = length (Clientbound m)"
    and "length (Serverbound (EnsureUniqueNames m)) = length (Serverbound m)"
    by (simp_all add: Clientbound_after [OF C S] Serverbound_after [OF C S])
  moreover note isMap_after [OF C S]
  moreover have "map_of (Clientbound (EnsureUniqueNames m)) k = Some n"
    if "map_of (Clientbound m) k = Some n \<and> n \<notin> names (Serverbound m)" for k n
    using that by (simp add: lookup_Clientbound_after [OF C S])
  moreover have "map_of (Serverbound (EnsureUniqueNames m)) k = Some n"
    if "map_of (Serverbound m) k = Some n \<and> n \<notin> names (Clientbound m)" for k n
    using that by (simp add: lookup_Serverbound_after [OF C S])
  ultimately show ?thesis by blast
qed

theorem EnsureUniqueNames_frame_witness:
  "isMap [(0 :: int32, ''SpawnEntity''), (0x1F, ''KeepAlive'')]
   \<and> isMap [(0 :: int32, ''TeleportConfirm''), (0x10, ''KeepAlive'')]
   \<and> ids (Clientbound (EnsureUniqueNames
        \<lparr>Clientbound = [(0, ''SpawnEntity''), (0x1F, ''KeepAlive'')],
         Serverbound = [(0, ''TeleportConfirm''), (0x10, ''KeepAlive'')]\<rparr>)) = {0, 0x1F}
   \<and> ids (Serverbound (EnsureUniqueNames
        \<lparr>Clientbound = [(0, ''SpawnEntity''), (0x1F, ''KeepAlive'')],
         Serverbound = [(0, ''TeleportConfirm''), (0x10, ''KeepAlive'')]\<rparr>)) = {0, 0x10}
   \<and> map_of [(0 :: int32, ''SpawnEntity''), (0x1F, ''KeepAlive'')] 0 = Some ''SpawnEntity''
   \<and> ''SpawnEntity'' \<notin> names [(0, ''TeleportConfirm''), (0x10, ''KeepAlive'')]
   \<and> map_of (Clientbound (EnsureUniqueNames
        \<lparr>Clientbound = [(0, ''SpawnEntity''), (0x1F, ''KeepAlive'')],
         Serverbound = [(0, ''TeleportConfirm''), (0x10, ''KeepAlive'')]\<rparr>)) 0 = Some ''SpawnEntity''
   \<and> map_of [(0 :: int32, ''TeleportConfirm''), (0x10, ''KeepAlive'')] 0 = Some ''TeleportConfirm''
   \<and> ''TeleportConfirm'' \<notin> names [(0, ''SpawnEntity''), (0x1F, ''KeepAlive'')]
   \<and> map_of (Serverbound (EnsureUniqueNames
        \<lparr>Clientbound = [(0, ''SpawnEntity''), (0x1F, ''KeepAlive'')],
         Serverbound = [(0, ''TeleportConfirm''), (0x10, ''KeepAlive'')]\<rparr>)) 0 = Some ''TeleportConfirm''"
proof -
  let ?m = "\<lparr>Clientbound = [(0, ''SpawnEntity''), (0x1F, ''KeepAlive'')],
         Serverbound = [(0, ''TeleportConfirm''), (0x10, ''KeepAlive'')]\<rparr>"
  have C: "isMap (Clientbound ?m)" and S: "isMap (Serverbound ?m)"
    by (simp_all add: isMap_def)
  note r = EnsureUniqueNames_frame [OF C S]
  have a: "map_of (Clientbound ?m) 0 = Some ''SpawnEntity'' \<and> ''SpawnEntity'' \<notin> names (Serverbound ?m)"
    and b: "map_of (Serverbound ?m) 0 = Some ''TeleportConfirm'' \<and> ''TeleportConfirm'' \<notin> names (Clientbound ?m)"
    by (simp_all add: names_def)
  from r a have 1: "map_of (Clientbound (EnsureUniqueNames ?m)) 0 = Some ''SpawnEntity''"
    by blast
  from r b have 2: "map_of (Serverbound (EnsureUniqueNames ?m)) 0 = Some ''TeleportConfirm''"
    by blast
  from r have "ids (Clientbound (EnsureUniqueNames ?m)) = ids (Clientbound ?m)"
    and "ids (Serverbound (EnsureUniqueNames ?m)) = ids (Serverbound ?m)"
    by blast+
  then have 3: "ids (Clientbound (EnsureUniqueNames ?m)) = {0, 0x1F}"
    and 4: "ids (Serverbound (EnsureUniqueNames ?m)) = {0, 0x10}"
    by (simp_all add: ids_def)
  from C S a b 1 2 3 4 show ?thesis by simp
qed

text \<open>
  C6. If no name occurs in both tables, \<^verbatim>\<open>EnsureUniqueNames\<close> returns both tables exactly
  as they are. Consequently a second application right after a first one that left no
  name in both tables changes nothing.
\<close>

theorem EnsureUniqueNames_noop:
  "(names (Clientbound m) \<inter> names (Serverbound m) = {} \<longrightarrow> EnsureUniqueNames m = m)
   \<and> (names (Clientbound (EnsureUniqueNames m)) \<inter> names (Serverbound (EnsureUniqueNames m)) = {}
      \<longrightarrow> EnsureUniqueNames (EnsureUniqueNames m) = EnsureUniqueNames m)"
  by (simp add: unchanged_if_disjoint)

theorem EnsureUniqueNames_noop_witness:
  "names [(0 :: int32, ''SpawnEntity'')] \<inter> names [(0 :: int32, ''TeleportConfirm'')] = {}
   \<and> EnsureUniqueNames \<lparr>Clientbound = [(0, ''SpawnEntity'')], Serverbound = [(0, ''TeleportConfirm'')]\<rparr>
      = \<lparr>Clientbound = [(0, ''SpawnEntity'')], Serverbound = [(0, ''TeleportConfirm'')]\<rparr>
   \<and> ''KeepAlive'' \<in> names [(0x1F, ''KeepAlive''), (0, ''SpawnEntity'')]
        \<inter> names [(0x10, ''KeepAlive''), (0, ''TeleportConfirm'')]
   \<and> EnsureUniqueNames
        \<lparr>Clientbound = [(0x1F, ''KeepAlive''), (0, ''SpawnEntity'')],
         Serverbound = [(0x10, ''KeepAlive''), (0, ''TeleportConfirm'')]\<rparr>
      = \<lparr>Clientbound = [(0x1F, ''KeepAliveClientbound''), (0, ''SpawnEntity'')],
         Serverbound = [(0x10, ''KeepAliveServerbound''), (0, ''TeleportConfirm'')]\<rparr>
   \<and> names [(0x1F :: int32, ''KeepAliveClientbound''), (0, ''SpawnEntity'')]
        \<inter> names [(0x10 :: int32, ''KeepAliveServerbound''), (0, ''TeleportConfirm'')] = {}
   \<and> EnsureUniqueNames (EnsureUniqueNames
        \<lparr>Clientbound = [(0x1F, ''KeepAlive''), (0, ''SpawnEntity'')],
         Serverbound = [(0x10, ''KeepAlive''), (0, ''TeleportConfirm'')]\<rparr>)
      = EnsureUniqueNames
        \<lparr>Clientbound = [(0x1F, ''KeepAlive''), (0, ''SpawnEntity'')],
         Serverbound = [(0x10, ''KeepAlive''), (0, ''TeleportConfirm'')]\<rparr>"
proof -
  let ?a = "\<lparr>Clientbound = [(0, ''SpawnEntity'')], Serverbound = [(0, ''TeleportConfirm'')]\<rparr>"
  let ?b = "\<lparr>Clientbound = [(0x1F, ''KeepAlive''), (0, ''SpawnEntity'')],
         Serverbound = [(0x10, ''KeepAlive''), (0, ''TeleportConfirm'')]\<rparr>"
  let ?b' = "\<lparr>Clientbound = [(0x1F, ''KeepAliveClientbound''), (0, ''SpawnEntity'')],
         Serverbound = [(0x10, ''KeepAliveServerbound''), (0, ''TeleportConfirm'')]\<rparr>"
  have a: "names (Clientbound ?a) \<inter> names (Serverbound ?a) = {}"
    by (simp add: names_def)
  have mem: "''KeepAlive'' \<in> names (Clientbound ?b) \<inter> names (Serverbound ?b)"
    by (simp add: names_def)
  have first: "EnsureUniqueNames ?b = ?b'"
    by (simp add: EnsureUniqueNames_def clientBoundsOf_def renameCollision_def)
  have b': "names (Clientbound ?b') \<inter> names (Serverbound ?b') = {}"
    by (simp add: names_def)
  then have b: "names (Clientbound (EnsureUniqueNames ?b))
      \<inter> names (Serverbound (EnsureUniqueNames ?b)) = {}"
    by (simp only: first)
  from EnsureUniqueNames_noop [of ?a] a have 1: "EnsureUniqueNames ?a = ?a" by blast
  from EnsureUniqueNames_noop [of ?b] b
  have 2: "EnsureUniqueNames (EnsureUniqueNames ?b) = EnsureUniqueNames ?b"
    by blast
  from a mem first b' 1 2 show ?thesis by simp
qed

text \<open>
  C9. Let the tables be maps, let the name \<open>n\<close> stand under two distinct clientbound IDs
  and let \<open>n\<close> be a serverbound name. Then the reverse index holds for \<open>n\<close> the ID \<open>kl\<close>
  of the last clientbound entry named \<open>n\<close> in the order of the first loop;
  \<^verbatim>\<open>EnsureUniqueNames\<close> renames the entry \<open>kl\<close> to \<open>n @ ''Clientbound''\<close> and every other
  clientbound entry named \<open>n\<close> keeps the name \<open>n\<close>. Which entry that is depends on the
  order alone: visiting the same clientbound map in the reverse order gives another
  clientbound map as the result.
\<close>

theorem EnsureUniqueNames_last_written:
  assumes C: "isMap (Clientbound m)" and S: "isMap (Serverbound m)"
    and k1: "map_of (Clientbound m) k1 = Some n"
    and k2: "map_of (Clientbound m) k2 = Some n"
    and ne: "k1 \<noteq> k2"
    and nS: "n \<in> names (Serverbound m)"
  shows "\<exists>kl. map_of (clientBoundsOf (Clientbound m)) n = Some kl
      \<and> kl = last (map fst (filter (\<lambda>(k, v). v = n) (Clientbound m)))
      \<and> map_of (Clientbound (EnsureUniqueNames m)) kl = Some (n @ ''Clientbound'')
      \<and> (\<forall>k. k \<noteq> kl \<and> map_of (Clientbound m) k = Some n
            \<longrightarrow> map_of (Clientbound (EnsureUniqueNames m)) k = Some n)
      \<and> isMap (rev (Clientbound m))
      \<and> map_of (rev (Clientbound m)) = map_of (Clientbound m)
      \<and> map_of (Clientbound (EnsureUniqueNames (m\<lparr>Clientbound := rev (Clientbound m)\<rparr>)))
          \<noteq> map_of (Clientbound (EnsureUniqueNames m))"
proof -
  let ?C = "Clientbound m"
  let ?K = "map fst (filter (\<lambda>(k, v). v = n) ?C)"
  let ?kl = "last ?K"
  let ?kf = "hd ?K"
  let ?m' = "m\<lparr>Clientbound := rev ?C\<rparr>"
  have dC: "distinct (map fst ?C)" using C by (simp add: isMap_def)
  have nC: "n \<in> snd ` set ?C" using k1 by (force dest: map_of_SomeD)
  have inK: "k \<in> set ?K \<longleftrightarrow> map_of ?C k = Some n" for k
    using dC by (auto simp: image_iff dest: map_of_SomeD)
  have dK: "distinct ?K" using dC by (simp add: distinct_map_filter)
  have "k1 \<in> set ?K" using k1 inK [of k1] by blast
  then have K: "?K \<noteq> []" by (metis empty_iff empty_set)
  have kl: "map_of (clientBoundsOf ?C) n = Some ?kl"
    using nC by (simp add: map_of_clientBoundsOf)
  have "?kl \<in> set ?K" using K by (rule last_in_set)
  then have klC: "map_of ?C ?kl = Some n" using inK [of ?kl] by blast
  have "?kf \<in> set ?K" using K by (rule hd_in_set)
  then have kfC: "map_of ?C ?kf = Some n" using inK [of ?kf] by blast
  have "k1 \<in> set ?K" and "k2 \<in> set ?K" using k1 k2 inK by blast+
  then have fl: "?kf \<noteq> ?kl"
    using ne by (rule hd_neq_last [OF dK])
  have 1: "map_of (Clientbound (EnsureUniqueNames m)) ?kl = Some (n @ ''Clientbound'')"
    using klC kl nS by (simp add: lookup_Clientbound_after [OF C S])
  have 2: "map_of (Clientbound (EnsureUniqueNames m)) k = Some n"
    if "k \<noteq> ?kl \<and> map_of ?C k = Some n" for k
    using that kl by (auto simp: lookup_Clientbound_after [OF C S])
  have C': "isMap (Clientbound ?m')" and S': "isMap (Serverbound ?m')"
    using C S by (simp_all add: isMap_def flip: rev_map)
  have same: "map_of (rev ?C) = map_of ?C" using dC by (rule map_of_rev_distinct)
  have "map fst (filter (\<lambda>(k, v). v = n) (rev ?C)) = rev ?K"
    by (simp add: rev_map flip: rev_filter)
  then have "last (map fst (filter (\<lambda>(k, v). v = n) (rev ?C))) = ?kf"
    using K by (simp add: last_rev)
  then have kl': "map_of (clientBoundsOf (Clientbound ?m')) n = Some ?kf"
    using nC by (simp add: map_of_clientBoundsOf)
  have "map_of (Clientbound (EnsureUniqueNames ?m')) ?kf = Some (n @ ''Clientbound'')"
    using kfC kl' nS same by (simp add: lookup_Clientbound_after [OF C' S'])
  moreover have "map_of (Clientbound (EnsureUniqueNames m)) ?kf = Some n"
    using 2 [of ?kf] fl kfC by simp
  ultimately have 3: "map_of (Clientbound (EnsureUniqueNames ?m'))
      \<noteq> map_of (Clientbound (EnsureUniqueNames m))"
    by (metis option.inject self_append_conv list.distinct(1))
  from kl 1 2 C' same 3 show ?thesis by auto
qed

theorem EnsureUniqueNames_last_written_witness:
  "isMap [(1 :: int32, ''KeepAlive''), (2, ''KeepAlive'')] \<and> isMap [(3 :: int32, ''KeepAlive'')]
   \<and> map_of [(1 :: int32, ''KeepAlive''), (2, ''KeepAlive'')] 1 = Some ''KeepAlive''
   \<and> map_of [(1 :: int32, ''KeepAlive''), (2, ''KeepAlive'')] 2 = Some ''KeepAlive''
   \<and> ''KeepAlive'' \<in> names [(3, ''KeepAlive'')]
   \<and> map_of (clientBoundsOf [(1, ''KeepAlive''), (2, ''KeepAlive'')]) ''KeepAlive'' = Some 2
   \<and> map_of (Clientbound (EnsureUniqueNames
        \<lparr>Clientbound = [(1, ''KeepAlive''), (2, ''KeepAlive'')], Serverbound = [(3, ''KeepAlive'')]\<rparr>)) 2
      = Some ''KeepAliveClientbound''
   \<and> map_of (Clientbound (EnsureUniqueNames
        \<lparr>Clientbound = [(1, ''KeepAlive''), (2, ''KeepAlive'')], Serverbound = [(3, ''KeepAlive'')]\<rparr>)) 1
      = Some ''KeepAlive''
   \<and> map_of (Clientbound (EnsureUniqueNames
        \<lparr>Clientbound = [(2, ''KeepAlive''), (1, ''KeepAlive'')], Serverbound = [(3, ''KeepAlive'')]\<rparr>))
      \<noteq> map_of (Clientbound (EnsureUniqueNames
        \<lparr>Clientbound = [(1, ''KeepAlive''), (2, ''KeepAlive'')], Serverbound = [(3, ''KeepAlive'')]\<rparr>))"
proof -
  let ?m = "\<lparr>Clientbound = [(1, ''KeepAlive''), (2, ''KeepAlive'')], Serverbound = [(3, ''KeepAlive'')]\<rparr>"
  have C: "isMap (Clientbound ?m)" and S: "isMap (Serverbound ?m)"
    by (simp_all add: isMap_def)
  have k1: "map_of (Clientbound ?m) 1 = Some ''KeepAlive''"
    and k2: "map_of (Clientbound ?m) 2 = Some ''KeepAlive''"
    and ne: "(1 :: int32) \<noteq> 2" and nS: "''KeepAlive'' \<in> names (Serverbound ?m)"
    by (simp_all add: names_def)
  from EnsureUniqueNames_last_written [OF C S k1 k2 ne nS] obtain kl
    where kl: "map_of (clientBoundsOf (Clientbound ?m)) ''KeepAlive'' = Some kl"
      and last: "kl = last (map fst (filter (\<lambda>(k, v). v = ''KeepAlive'') (Clientbound ?m)))"
      and ren: "map_of (Clientbound (EnsureUniqueNames ?m)) kl = Some (''KeepAlive'' @ ''Clientbound'')"
      and keep: "\<forall>k. k \<noteq> kl \<and> map_of (Clientbound ?m) k = Some ''KeepAlive''
            \<longrightarrow> map_of (Clientbound (EnsureUniqueNames ?m)) k = Some ''KeepAlive''"
      and diff: "map_of (Clientbound (EnsureUniqueNames (?m\<lparr>Clientbound := rev (Clientbound ?m)\<rparr>)))
          \<noteq> map_of (Clientbound (EnsureUniqueNames ?m))"
    by blast
  from last have kl2: "kl = 2" by simp
  from keep kl2 k1 have 1: "map_of (Clientbound (EnsureUniqueNames ?m)) 1 = Some ''KeepAlive''"
    by simp
  from C S k1 k2 nS kl ren diff 1 show ?thesis unfolding kl2 by simp
qed

section \<open>Claims on the Extractor\<close>

text \<open>
  \<^verbatim>\<open>unnest\<close> is the only source of errors: it fails with \<^verbatim>\<open>key not found\<close> or with
  \<^verbatim>\<open>key was T, expected a string map\<close> at one of the keys it is given.
\<close>

lemma unnest_error:
  "unnest input keys = Inl e \<Longrightarrow>
     \<exists>k \<in> set keys. e = KeyNotFound k \<or> (\<exists>t. t \<noteq> TMap \<and> e = WrongType k t)"
proof (induction keys arbitrary: input)
  case Nil
  then show ?case by simp
next
  case (Cons k keys)
  show ?case
  proof (cases "map_of input k")
    case None
    then show ?thesis using Cons.prems by auto
  next
    case (Some sub)
    then show ?thesis using Cons by (cases sub) auto
  qed
qed

lemma unpackMapping_error:
  assumes "unpackMapping toCamel data gameState = Returns (Inl e)"
  shows "unnest data [gameState, ''toClient'', ''types''] = Inl e
       \<or> unnest data [gameState, ''toServer'', ''types''] = Inl e"
  using assms unfolding unpackMapping_def andThen_def
  by (auto split: sum.splits outcome.splits)

lemma unnest_append:
  "unnest input (ks1 @ ks2) = (case unnest input ks1 of Inl e \<Rightarrow> Inl e | Inr sub \<Rightarrow> unnest sub ks2)"
proof (induction ks1 arbitrary: input)
  case Nil
  then show ?case by simp
next
  case (Cons k ks1)
  show ?case
  proof (cases "map_of input k")
    case None
    then show ?thesis by simp
  next
    case (Some v)
    then show ?thesis using Cons.IH by (cases v) simp_all
  qed
qed

lemma unnest_key_absent:
  assumes "unnest input ks1 = Inr sub" and "map_of sub k = None"
  shows "unnest input (ks1 @ k # ks2) = Inl (KeyNotFound k)"
  using assms by (simp add: unnest_append)

lemma unnest_key_wrong:
  assumes "unnest input ks1 = Inr sub" and "map_of sub k = Some v" and "typeOf v \<noteq> TMap"
  shows "unnest input (ks1 @ k # ks2) = Inl (WrongType k (typeOf v))"
  using assms by (cases v) (simp_all add: unnest_append)

lemma unnest_first_failure:
  assumes "unnest input keys = Inl e"
  shows "\<exists>ks1 k ks2 sub. keys = ks1 @ k # ks2 \<and> unnest input ks1 = Inr sub
      \<and> ((map_of sub k = None \<and> e = KeyNotFound k)
         \<or> (\<exists>v. map_of sub k = Some v \<and> typeOf v \<noteq> TMap \<and> e = WrongType k (typeOf v)))"
  using assms
proof (induction keys arbitrary: input)
  case Nil
  then show ?case by simp
next
  case (Cons k keys)
  show ?case
  proof (cases "map_of input k")
    case None
    with Cons.prems have "e = KeyNotFound k" by simp
    with None have "k # keys = [] @ k # keys \<and> unnest input [] = Inr input
      \<and> ((map_of input k = None \<and> e = KeyNotFound k)
         \<or> (\<exists>v. map_of input k = Some v \<and> typeOf v \<noteq> TMap \<and> e = WrongType k (typeOf v)))"
      by simp
    then show ?thesis by blast
  next
    case (Some v)
    show ?thesis
    proof (cases "typeOf v = TMap")
      case False
      with Some Cons.prems have "e = WrongType k (typeOf v)" by (cases v) simp_all
      with Some False have "k # keys = [] @ k # keys \<and> unnest input [] = Inr input
        \<and> ((map_of input k = None \<and> e = KeyNotFound k)
           \<or> (\<exists>v. map_of input k = Some v \<and> typeOf v \<noteq> TMap \<and> e = WrongType k (typeOf v)))"
        by simp
      then show ?thesis by blast
    next
      case True
      then obtain nxt where v: "v = JMap nxt" by (cases v) simp_all
      with Some Cons.prems have "unnest nxt keys = Inl e" by simp
      from Cons.IH [OF this] obtain ks1 k' ks2 sub where
        "keys = ks1 @ k' # ks2" and "unnest nxt ks1 = Inr sub"
        and r: "(map_of sub k' = None \<and> e = KeyNotFound k')
         \<or> (\<exists>v. map_of sub k' = Some v \<and> typeOf v \<noteq> TMap \<and> e = WrongType k' (typeOf v))"
        by blast
      then have "k # keys = (k # ks1) @ k' # ks2 \<and> unnest input (k # ks1) = Inr sub"
        using Some v by simp
      with r show ?thesis by blast
    qed
  qed
qed

lemma andThen_Returns:
  "andThen r f = Returns y \<longleftrightarrow> (\<exists>x. r = Returns x \<and> f x = Returns y)"
  by (cases r) (simp_all add: andThen_def)

lemma andThen_Panics:
  "andThen r f = Panics p \<longleftrightarrow> r = Panics p \<or> (\<exists>x. r = Returns x \<and> f x = Panics p)"
  by (cases r) (simp_all add: andThen_def)

lemma asSlice_Returns: "asSlice v = Returns xs \<longleftrightarrow> v = JSlice xs"
  by (cases v) simp_all

lemma asMap_Returns: "asMap v = Returns m \<longleftrightarrow> v = JMap m"
  by (cases v) simp_all

lemma asString_Returns: "asString v = Returns s \<longleftrightarrow> v = JString s"
  by (cases v) simp_all

lemma asSlice_Panics: "asSlice v = Panics p \<Longrightarrow> p = PanicTypeAssertion"
  by (cases v) simp_all

lemma asMap_Panics: "asMap v = Panics p \<Longrightarrow> p = PanicTypeAssertion"
  by (cases v) simp_all

lemma asString_Panics: "asString v = Panics p \<longleftrightarrow> p = PanicTypeAssertion \<and> typeOf v \<noteq> TString"
  by (cases v) auto

lemma index_Returns: "index xs i = Returns x \<longleftrightarrow> i < length xs \<and> x = xs ! i"
  by (auto simp: index_def)

lemma index_Panics: "index xs i = Panics p \<Longrightarrow> p = PanicIndex"
  by (simp add: index_def split: if_splits)

lemma packetMappings_Returns:
  "packetMappings info = Returns mappings \<longleftrightarrow>
     (\<exists>packet fields idField pType mapper.
        field info ''packet'' = JSlice packet \<and> 1 < length packet \<and> packet ! 1 = JSlice fields
        \<and> 0 < length fields \<and> fields ! 0 = JMap idField
        \<and> field idField ''type'' = JSlice pType \<and> 1 < length pType \<and> pType ! 1 = JMap mapper
        \<and> field mapper ''mappings'' = JMap mappings)"
  unfolding packetMappings_def Let_def
  by (simp only: andThen_Returns asSlice_Returns asMap_Returns index_Returns) metis

lemma packetMappings_Panics:
  "packetMappings info = Panics p \<Longrightarrow> p = PanicTypeAssertion \<or> p = PanicIndex"
  unfolding packetMappings_def Let_def
  by (auto simp: andThen_Panics dest: asSlice_Panics asMap_Panics index_Panics)

lemma mustAtoi_Returns:
  "mustAtoi k = Returns i \<longleftrightarrow> snd (ParseInt k 0 32) = None \<and> i = ucast (fst (ParseInt k 0 32))"
  by (cases "ParseInt k 0 32") (auto simp: mustAtoi_def split: option.splits)

lemma mustAtoi_Panics:
  "mustAtoi k = Panics p \<longleftrightarrow> (\<exists>err. snd (ParseInt k 0 32) = Some err \<and> p = PanicError err)"
  by (cases "ParseInt k 0 32") (auto simp: mustAtoi_def split: option.splits)

lemma fillTable_Panics:
  "fillTable toCamel mappings out = Panics p \<Longrightarrow>
     (p = PanicTypeAssertion \<and> (\<exists>k v. (k, v) \<in> set mappings \<and> typeOf v \<noteq> TString))
     \<or> (\<exists>k v err. (k, v) \<in> set mappings \<and> snd (ParseInt k 0 32) = Some err \<and> p = PanicError err)"
proof (induction mappings arbitrary: out)
  case Nil
  then show ?case by simp
next
  case (Cons x mappings)
  obtain k v where x: "x = (k, v)" by (cases x)
  show ?case
  proof (cases "mustAtoi k")
    case (Panics q)
    with Cons.prems x have "p = q" by simp
    with Panics obtain err where "snd (ParseInt k 0 32) = Some err" "p = PanicError err"
      by (auto simp: mustAtoi_Panics)
    then show ?thesis using x by auto
  next
    case (Returns i)
    show ?thesis
    proof (cases "asString v")
      case (Panics q)
      with Returns Cons.prems x have "p = q" by simp
      with Panics have "p = PanicTypeAssertion" "typeOf v \<noteq> TString"
        by (simp_all add: asString_Panics)
      then show ?thesis using x by auto
    next
      case r: (Returns s)
      with Returns Cons.prems x
      have "fillTable toCamel mappings (AList.update i (toCamel s) out) = Panics p" by simp
      from Cons.IH [OF this] show ?thesis by auto
    qed
  qed
qed

lemma fillTable_panics_iff:
  "(\<exists>p. fillTable toCamel mappings out = Panics p) \<longleftrightarrow>
     (\<exists>k v. (k, v) \<in> set mappings \<and> (snd (ParseInt k 0 32) \<noteq> None \<or> typeOf v \<noteq> TString))"
proof
  assume "\<exists>p. fillTable toCamel mappings out = Panics p"
  then obtain p where "fillTable toCamel mappings out = Panics p" ..
  from fillTable_Panics [OF this]
  show "\<exists>k v. (k, v) \<in> set mappings \<and> (snd (ParseInt k 0 32) \<noteq> None \<or> typeOf v \<noteq> TString)"
    by auto
next
  assume "\<exists>k v. (k, v) \<in> set mappings \<and> (snd (ParseInt k 0 32) \<noteq> None \<or> typeOf v \<noteq> TString)"
  then obtain k v where mem: "(k, v) \<in> set mappings"
    and bad: "snd (ParseInt k 0 32) \<noteq> None \<or> typeOf v \<noteq> TString" by blast
  from mem show "\<exists>p. fillTable toCamel mappings out = Panics p"
  proof (induction mappings arbitrary: out)
    case Nil
    then show ?case by simp
  next
    case (Cons x mappings)
    obtain k' v' where x: "x = (k', v')" by (cases x)
    show ?case
    proof (cases "mustAtoi k'")
      case (Panics q)
      then show ?thesis by (simp add: x)
    next
      case (Returns i)
      show ?thesis
      proof (cases "asString v'")
        case (Panics q)
        with Returns show ?thesis by (simp add: x)
      next
        case r: (Returns s)
        have "x \<noteq> (k, v)"
        proof
          assume "x = (k, v)"
          with x have "k' = k" "v' = v" by simp_all
          with Returns r bad show False
            by (auto simp: mustAtoi_Returns asString_Returns)
        qed
        with Cons.prems have "(k, v) \<in> set mappings" by simp
        from Cons.IH [OF this] Returns r show ?thesis by (simp add: x)
      qed
    qed
  qed
qed

lemma unpackMapping_steps:
  "unpackMapping toCamel data gameState =
     (case unnest data [gameState, ''toClient'', ''types''] of
        Inl e \<Rightarrow> Returns (Inl e)
      | Inr infoC \<Rightarrow>
         (case packetMappings infoC of
            Panics p \<Rightarrow> Panics p
          | Returns mc \<Rightarrow>
             (case fillTable toCamel mc [] of
                Panics p \<Rightarrow> Panics p
              | Returns cb \<Rightarrow>
                 (case unnest data [gameState, ''toServer'', ''types''] of
                    Inl e \<Rightarrow> Returns (Inl e)
                  | Inr infoS \<Rightarrow>
                     (case packetMappings infoS of
                        Panics p \<Rightarrow> Panics p
                      | Returns ms \<Rightarrow>
                         (case fillTable toCamel ms [] of
                            Panics p \<Rightarrow> Panics p
                          | Returns sb \<Rightarrow>
                              Returns (Inr \<lparr>Clientbound = cb, Serverbound = sb\<rparr>)))))))"
  by (simp add: unpackMapping_def andThen_def split: sum.splits outcome.splits)

lemma unnest_stateSection:
  "unnest [(s, stateSection c sv)] [s, ''toClient'', ''types''] = Inr (packetSection c)"
  "unnest [(s, stateSection c sv)] [s, ''toServer'', ''types''] = Inr (packetSection sv)"
  by (simp_all add: stateSection_def typesSection_def)

lemma packetMappings_fixture: "packetMappings (packetSection c) = Returns c"
  by (simp add: packetSection_def packetMappings_def andThen_def field_def index_def)

lemma unnest_typesSection:
  "unnest [(s, JMap [(d, typesSection c)])] [s, d, ''types''] = Inr (packetSection c)"
  by (simp add: typesSection_def)

text \<open>
  C2. The claim reads: \<^verbatim>\<open>unpackMapping\<close> either returns a StateMapping or returns an
  error, a NotFound error for any absent key of the path, a TypeMismatch error for any
  value of the wrong type, a ParseError for a mapping key that is no integer. The code
  does neither on a document whose mapping key is \<open>abc\<close>: \<^verbatim>\<open>mustAtoi\<close> panics with the
  parser's error. Nor on a document whose \<^verbatim>\<open>types\<close> section has no \<^verbatim>\<open>packet\<close> entry: the
  type assertion on \<^verbatim>\<open>nil\<close> panics.
\<close>

theorem unpackMapping_panics_counterexample:
  "unpackMapping id [(''play'', stateSection [(''abc'', JString ''spawn_entity'')] [(''0x00'', JString ''chat'')])] ''play''
     = Panics (PanicError \<lparr>Func = ''ParseInt'', Num = ''abc'', Err = ErrSyntax\<rparr>)
   \<and> unpackMapping id [(''play'', JMap [(''toClient'', JMap [(''types'', JMap [])]), (''toServer'', typesSection [])])] ''play''
     = Panics PanicTypeAssertion"
  by code_simp

text \<open>
  C2, as amended. \<^verbatim>\<open>unpackMapping\<close> returns a StateMapping, returns an error, or panics,
  and neither an error nor a panic leaves a partial result. It runs four steps in order
  and stops at the first that fails: the path state, \<^verbatim>\<open>toClient\<close>, \<^verbatim>\<open>types\<close>; the
  clientbound mappings; the path state, \<^verbatim>\<open>toServer\<close>, \<^verbatim>\<open>types\<close>; the serverbound
  mappings. On a path, \<^verbatim>\<open>unnest\<close> returns a NotFound error at the first key that is absent
  and a TypeMismatch error at the first key whose value is not an object, and no other
  error is ever returned. Below \<^verbatim>\<open>types\<close> nothing is checked. The mappings are reached
  exactly when \<^verbatim>\<open>packet\<close> is a sequence whose second element is a non-empty sequence whose
  first element is an object whose \<^verbatim>\<open>type\<close> is a sequence whose second element is an
  object whose \<^verbatim>\<open>mappings\<close> is an object; otherwise the call panics on a type assertion
  or on an index out of range. Filling a table panics exactly when \<^verbatim>\<open>strconv.ParseInt\<close>
  rejects some mapping key or some name is not a string, with the parser's error or the
  failed type assertion; no ParseError is returned.
\<close>

theorem unpackMapping_failures:
  "(unnest input ks1 = Inr sub \<and> map_of sub k = None
      \<longrightarrow> unnest input (ks1 @ k # ks2) = Inl (KeyNotFound k))
   \<and> (unnest input ks1 = Inr sub \<and> map_of sub k = Some v \<and> typeOf v \<noteq> TMap
      \<longrightarrow> unnest input (ks1 @ k # ks2) = Inl (WrongType k (typeOf v)))
   \<and> (unnest input keys = Inl e
      \<longrightarrow> (\<exists>ks1 k ks2 sub. keys = ks1 @ k # ks2 \<and> unnest input ks1 = Inr sub
            \<and> ((map_of sub k = None \<and> e = KeyNotFound k)
               \<or> (\<exists>v. map_of sub k = Some v \<and> typeOf v \<noteq> TMap \<and> e = WrongType k (typeOf v)))))
   \<and> (packetMappings info = Returns mappings \<longleftrightarrow>
        (\<exists>packet fields idField pType mapper.
           field info ''packet'' = JSlice packet \<and> 1 < length packet \<and> packet ! 1 = JSlice fields
           \<and> 0 < length fields \<and> fields ! 0 = JMap idField
           \<and> field idField ''type'' = JSlice pType \<and> 1 < length pType \<and> pType ! 1 = JMap mapper
           \<and> field mapper ''mappings'' = JMap mappings))
   \<and> (packetMappings info = Panics PanicTypeAssertion \<or> packetMappings info = Panics PanicIndex
        \<or> (\<exists>mappings. packetMappings info = Returns mappings))
   \<and> ((\<exists>p. fillTable toCamel mappings out = Panics p) \<longleftrightarrow>
        (\<exists>k v. (k, v) \<in> set mappings \<and> (snd (ParseInt k 0 32) \<noteq> None \<or> typeOf v \<noteq> TString)))
   \<and> (fillTable toCamel mappings out = Panics p
      \<longrightarrow> (p = PanicTypeAssertion \<and> (\<exists>k v. (k, v) \<in> set mappings \<and> typeOf v \<noteq> TString))
          \<or> (\<exists>k v err. (k, v) \<in> set mappings \<and> snd (ParseInt k 0 32) = Some err
                \<and> p = PanicError err))
   \<and> (unnest data [gameState, ''toClient'', ''types''] = Inl e
      \<longrightarrow> unpackMapping toCamel data gameState = Returns (Inl e))
   \<and> (unnest data [gameState, ''toClient'', ''types''] = Inr infoC
        \<and> packetMappings infoC = Panics p
      \<longrightarrow> unpackMapping toCamel data gameState = Panics p)
   \<and> (unnest data [gameState, ''toClient'', ''types''] = Inr infoC
        \<and> packetMappings infoC = Returns mc \<and> fillTable toCamel mc [] = Panics p
      \<longrightarrow> unpackMapping toCamel data gameState = Panics p)
   \<and> (unnest data [gameState, ''toClient'', ''types''] = Inr infoC
        \<and> packetMappings infoC = Returns mc \<and> fillTable toCamel mc [] = Returns cb
        \<and> unnest data [gameState, ''toServer'', ''types''] = Inl e
      \<longrightarrow> unpackMapping toCamel data gameState = Returns (Inl e))
   \<and> (unnest data [gameState, ''toClient'', ''types''] = Inr infoC
        \<and> packetMappings infoC = Returns mc \<and> fillTable toCamel mc [] = Returns cb
        \<and> unnest data [gameState, ''toServer'', ''types''] = Inr infoS
        \<and> packetMappings infoS = Panics p
      \<longrightarrow> unpackMapping toCamel data gameState = Panics p)
   \<and> (unnest data [gameState, ''toClient'', ''types''] = Inr infoC
        \<and> packetMappings infoC = Returns mc \<and> fillTable toCamel mc [] = Returns cb
        \<and> unnest data [gameState, ''toServer'', ''types''] = Inr infoS
        \<and> packetMappings infoS = Returns ms \<and> fillTable toCamel ms [] = Panics p
      \<longrightarrow> unpackMapping toCamel data gameState = Panics p)
   \<and> (unnest data [gameState, ''toClient'', ''types''] = Inr infoC
        \<and> packetMappings infoC = Returns mc \<and> fillTable toCamel mc [] = Returns cb
        \<and> unnest data [gameState, ''toServer'', ''types''] = Inr infoS
        \<and> packetMappings infoS = Returns ms \<and> fillTable toCamel ms [] = Returns sb
      \<longrightarrow> unpackMapping toCamel data gameState =
            Returns (Inr \<lparr>Clientbound = cb, Serverbound = sb\<rparr>))
   \<and> (unpackMapping toCamel data gameState = Returns (Inl e)
      \<longrightarrow> (\<exists>k \<in> {gameState, ''toClient'', ''toServer'', ''types''}.
            e = KeyNotFound k \<or> (\<exists>t. t \<noteq> TMap \<and> e = WrongType k t)))"
proof -
  have u1: "unnest input ks1 = Inr sub \<and> map_of sub k = None
      \<longrightarrow> unnest input (ks1 @ k # ks2) = Inl (KeyNotFound k)"
    using unnest_key_absent by blast
  have u2: "unnest input ks1 = Inr sub \<and> map_of sub k = Some v \<and> typeOf v \<noteq> TMap
      \<longrightarrow> unnest input (ks1 @ k # ks2) = Inl (WrongType k (typeOf v))"
    using unnest_key_wrong by blast
  have u3: "unnest input keys = Inl e
      \<longrightarrow> (\<exists>ks1 k ks2 sub. keys = ks1 @ k # ks2 \<and> unnest input ks1 = Inr sub
            \<and> ((map_of sub k = None \<and> e = KeyNotFound k)
               \<or> (\<exists>v. map_of sub k = Some v \<and> typeOf v \<noteq> TMap \<and> e = WrongType k (typeOf v))))"
    using unnest_first_failure by blast
  note p1 = packetMappings_Returns [of info mappings]
  have p2: "packetMappings info = Panics PanicTypeAssertion \<or> packetMappings info = Panics PanicIndex
        \<or> (\<exists>mappings. packetMappings info = Returns mappings)"
  proof (cases "packetMappings info")
    case (Returns mappings)
    then show ?thesis by blast
  next
    case (Panics q)
    with packetMappings_Panics [OF Panics] show ?thesis by blast
  qed
  note f1 = fillTable_panics_iff [of toCamel mappings out]
  have f2: "fillTable toCamel mappings out = Panics p
      \<longrightarrow> (p = PanicTypeAssertion \<and> (\<exists>k v. (k, v) \<in> set mappings \<and> typeOf v \<noteq> TString))
          \<or> (\<exists>k v err. (k, v) \<in> set mappings \<and> snd (ParseInt k 0 32) = Some err
                \<and> p = PanicError err)"
    using fillTable_Panics by blast
  have s1: "unnest data [gameState, ''toClient'', ''types''] = Inl e
      \<longrightarrow> unpackMapping toCamel data gameState = Returns (Inl e)"
    by (simp add: unpackMapping_steps)
  have s2: "unnest data [gameState, ''toClient'', ''types''] = Inr infoC
        \<and> packetMappings infoC = Panics p
      \<longrightarrow> unpackMapping toCamel data gameState = Panics p"
    by (simp add: unpackMapping_steps)
  have s3: "unnest data [gameState, ''toClient'', ''types''] = Inr infoC
        \<and> packetMappings infoC = Returns mc \<and> fillTable toCamel mc [] = Panics p
      \<longrightarrow> unpackMapping toCamel data gameState = Panics p"
    by (simp add: unpackMapping_steps)
  have s4: "unnest data [gameState, ''toClient'', ''types''] = Inr infoC
        \<and> packetMappings infoC = Returns mc \<and> fillTable toCamel mc [] = Returns cb
        \<and> unnest data [gameState, ''toServer'', ''types''] = Inl e
      \<longrightarrow> unpackMapping toCamel data gameState = Returns (Inl e)"
    by (simp add: unpackMapping_steps)
  have s5: "unnest data [gameState, ''toClient'', ''types''] = Inr infoC
        \<and> packetMappings infoC = Returns mc \<and> fillTable toCamel mc [] = Returns cb
        \<and> unnest data [gameState, ''toServer'', ''types''] = Inr infoS
        \<and> packetMappings infoS = Panics p
      \<longrightarrow> unpackMapping toCamel data gameState = Panics p"
    by (simp add: unpackMapping_steps)
  have s6: "unnest data [gameState, ''toClient'', ''types''] = Inr infoC
        \<and> packetMappings infoC = Returns mc \<and> fillTable toCamel mc [] = Returns cb
        \<and> unnest data [gameState, ''toServer'', ''types''] = Inr infoS
        \<and> packetMappings infoS = Returns ms \<and> fillTable toCamel ms [] = Panics p
      \<longrightarrow> unpackMapping toCamel data gameState = Panics p"
    by (simp add: unpackMapping_steps)
  have s7: "unnest data [gameState, ''toClient'', ''types''] = Inr infoC
        \<and> packetMappings infoC = Returns mc \<and> fillTable toCamel mc [] = Returns cb
        \<and> unnest data [gameState, ''toServer'', ''types''] = Inr infoS
        \<and> packetMappings infoS = Returns ms \<and> fillTable toCamel ms [] = Returns sb
      \<longrightarrow> unpackMapping toCamel data gameState =
            Returns (Inr \<lparr>Clientbound = cb, Serverbound = sb\<rparr>)"
    by (simp add: unpackMapping_steps)
  have er: "unpackMapping toCamel data gameState = Returns (Inl e)
      \<longrightarrow> (\<exists>k \<in> {gameState, ''toClient'', ''toServer'', ''types''}.
            e = KeyNotFound k \<or> (\<exists>t. t \<noteq> TMap \<and> e = WrongType k t))"
  proof
    assume "unpackMapping toCamel data gameState = Returns (Inl e)"
    from unpackMapping_error [OF this] obtain keys
      where keys: "set keys \<subseteq> {gameState, ''toClient'', ''toServer'', ''types''}"
        and err: "unnest data keys = Inl e"
      by (elim disjE) (rule that [of "[gameState, ''toClient'', ''types'']"], simp, simp,
          rule that [of "[gameState, ''toServer'', ''types'']"], simp, simp)
    from unnest_error [OF err] obtain k
      where "k \<in> set keys" and "e = KeyNotFound k \<or> (\<exists>t. t \<noteq> TMap \<and> e = WrongType k t)"
      by blast
    with keys show "\<exists>k \<in> {gameState, ''toClient'', ''toServer'', ''types''}.
              e = KeyNotFound k \<or> (\<exists>t. t \<noteq> TMap \<and> e = WrongType k t)"
      by blast
  qed
  show ?thesis
    by (intro conjI) (rule u1 u2 u3 p1 p2 f1 f2 s1 s2 s3 s4 s5 s6 s7 er)+
qed

theorem unpackMapping_failures_witness:
  "unnest [(''play'', JMap [])] [''play'', ''toClient'', ''types''] = Inl (KeyNotFound ''toClient'')
   \<and> unnest [(''play'', JMap [(''toClient'', JString ''x'')])] [''play'', ''toClient'', ''types'']
       = Inl (WrongType ''toClient'' TString)
   \<and> (\<exists>ks1 ks2 sub. [''play'', ''toClient'', ''types''] = ks1 @ ''toClient'' # ks2
         \<and> unnest [(''play'', JMap [])] ks1 = Inr sub \<and> map_of sub ''toClient'' = None)
   \<and> unpackMapping id [(''play'', JMap [(''toServer'', typesSection [])])] ''play''
       = Returns (Inl (KeyNotFound ''toClient''))
   \<and> unpackMapping id
         [(''play'', JMap [(''toClient'', JMap [(''types'', JMap [])]),
                           (''toServer'', typesSection [])])] ''play''
       = Panics PanicTypeAssertion
   \<and> unpackMapping id
         [(''play'', JMap [(''toClient'', typesSection [(''abc'', JString ''spawn_entity'')])])] ''play''
       = Panics (PanicError \<lparr>Func = ''ParseInt'', Num = ''abc'', Err = ErrSyntax\<rparr>)
   \<and> unpackMapping id
         [(''play'', JMap [(''toClient'', typesSection []),
                           (''toServer'', JMap [(''types'', JString ''x'')])])] ''play''
       = Returns (Inl (WrongType ''types'' TString))
   \<and> unpackMapping id
         [(''play'', JMap [(''toClient'', typesSection []),
                           (''toServer'', JMap [(''types'',
                              JMap [(''packet'', JSlice [JString ''container''])])])])] ''play''
       = Panics PanicIndex
   \<and> unpackMapping id [(''play'', stateSection [] [(''0x00'', JNil)])] ''play''
       = Panics PanicTypeAssertion
   \<and> unpackMapping id
         [(''play'', stateSection [(''0x00'', JString ''spawn_entity'')] [(''0x00'', JString ''chat'')])]
         ''play''
       = Returns (Inr \<lparr>Clientbound = [(0, ''spawn_entity'')], Serverbound = [(0, ''chat'')]\<rparr>)"
proof -
  note r1 = unpackMapping_failures [THEN conjunct2] note r2 = r1 [THEN conjunct2] note r3 = r2 [THEN conjunct2]
  note r4 = r3 [THEN conjunct2] note r5 = r4 [THEN conjunct2] note r6 = r5 [THEN conjunct2]
  note r7 = r6 [THEN conjunct2] note r8 = r7 [THEN conjunct2] note r9 = r8 [THEN conjunct2]
  note r10 = r9 [THEN conjunct2] note r11 = r10 [THEN conjunct2] note r12 = r11 [THEN conjunct2]
  note r13 = r12 [THEN conjunct2]
  note absent = unpackMapping_failures [THEN conjunct1, rule_format] and wrong = r1 [THEN conjunct1, rule_format]
    and first = r2 [THEN conjunct1, rule_format]
    and s1 = r7 [THEN conjunct1, rule_format] and s2 = r8 [THEN conjunct1, rule_format]
    and s3 = r9 [THEN conjunct1, rule_format] and s4 = r10 [THEN conjunct1, rule_format]
    and s5 = r11 [THEN conjunct1, rule_format] and s6 = r12 [THEN conjunct1, rule_format]
    and s7 = r13 [THEN conjunct1, rule_format]
  let ?bad = "\<lparr>Func = ''ParseInt'', Num = ''abc'', Err = ErrSyntax\<rparr>"
  have "unnest [(''play'', JMap [])] [''play''] = Inr []
      \<and> map_of ([] :: stringMap) ''toClient'' = None"
    by simp
  from absent [OF this, of "[''types'']"]
  have 1: "unnest [(''play'', JMap [])] [''play'', ''toClient'', ''types'']
      = Inl (KeyNotFound ''toClient'')"
    by simp
  have "unnest [(''play'', JMap [(''toClient'', JString ''x'')])] [''play'']
        = Inr [(''toClient'', JString ''x'')]
      \<and> map_of [(''toClient'', JString ''x'')] ''toClient'' = Some (JString ''x'')
      \<and> typeOf (JString ''x'') \<noteq> TMap"
    by simp
  from wrong [OF this, of "[''types'']"]
  have 2: "unnest [(''play'', JMap [(''toClient'', JString ''x'')])] [''play'', ''toClient'', ''types'']
       = Inl (WrongType ''toClient'' TString)"
    by simp
  from first [OF 1] obtain ks1 k ks2 sub
    where "[''play'', ''toClient'', ''types''] = ks1 @ k # ks2"
      and "unnest [(''play'', JMap [])] ks1 = Inr sub"
      and "(map_of sub k = None \<and> KeyNotFound ''toClient'' = KeyNotFound k)
         \<or> (\<exists>v. map_of sub k = Some v \<and> typeOf v \<noteq> TMap
              \<and> KeyNotFound ''toClient'' = WrongType k (typeOf v))"
    by blast
  then have 3: "\<exists>ks1 ks2 sub. [''play'', ''toClient'', ''types''] = ks1 @ ''toClient'' # ks2
         \<and> unnest [(''play'', JMap [])] ks1 = Inr sub \<and> map_of sub ''toClient'' = None"
    by auto
  let ?a = "[(''play'', JMap [(''toServer'', typesSection [])])]"
  have "unnest ?a [''play'', ''toClient'', ''types''] = Inl (KeyNotFound ''toClient'')" by simp
  from s1 [OF this]
  have 4: "unpackMapping id ?a ''play'' = Returns (Inl (KeyNotFound ''toClient''))" .
  let ?b = "[(''play'', JMap [(''toClient'', JMap [(''types'', JMap [])]),
                           (''toServer'', typesSection [])])]"
  have "unnest ?b [''play'', ''toClient'', ''types''] = Inr []
      \<and> packetMappings [] = Panics PanicTypeAssertion"
    by (simp add: packetMappings_def field_def andThen_def)
  from s2 [OF this]
  have 5: "unpackMapping id ?b ''play'' = Panics PanicTypeAssertion" .
  let ?c = "[(''play'', JMap [(''toClient'', typesSection [(''abc'', JString ''spawn_entity'')])])]"
  have abc: "fillTable id [(''abc'', JString ''spawn_entity'')] [] = Panics (PanicError ?bad)"
    by code_simp
  have "unnest ?c [''play'', ''toClient'', ''types'']
        = Inr (packetSection [(''abc'', JString ''spawn_entity'')])
      \<and> packetMappings (packetSection [(''abc'', JString ''spawn_entity'')])
          = Returns [(''abc'', JString ''spawn_entity'')]
      \<and> fillTable id [(''abc'', JString ''spawn_entity'')] [] = Panics (PanicError ?bad)"
    using abc by (simp only: unnest_typesSection packetMappings_fixture, simp?)
  from s3 [OF this]
  have 6: "unpackMapping id ?c ''play'' = Panics (PanicError ?bad)" .
  have empty: "fillTable id [] [] = Returns []" by simp
  let ?d = "[(''play'', JMap [(''toClient'', typesSection []),
                           (''toServer'', JMap [(''types'', JString ''x'')])])]"
  have "unnest ?d [''play'', ''toClient'', ''types''] = Inr (packetSection [])
      \<and> packetMappings (packetSection []) = Returns [] \<and> fillTable id [] [] = Returns []
      \<and> unnest ?d [''play'', ''toServer'', ''types''] = Inl (WrongType ''types'' TString)"
    by (simp add: typesSection_def packetMappings_fixture)
  from s4 [OF this]
  have 7: "unpackMapping id ?d ''play'' = Returns (Inl (WrongType ''types'' TString))" .
  let ?e = "[(''play'', JMap [(''toClient'', typesSection []),
                           (''toServer'', JMap [(''types'',
                              JMap [(''packet'', JSlice [JString ''container''])])])])]"
  have short: "packetMappings [(''packet'', JSlice [JString ''container''])] = Panics PanicIndex"
    by (simp add: packetMappings_def field_def andThen_def index_def)
  have "unnest ?e [''play'', ''toClient'', ''types''] = Inr (packetSection [])
      \<and> packetMappings (packetSection []) = Returns [] \<and> fillTable id [] [] = Returns []
      \<and> unnest ?e [''play'', ''toServer'', ''types'']
          = Inr [(''packet'', JSlice [JString ''container''])]
      \<and> packetMappings [(''packet'', JSlice [JString ''container''])] = Panics PanicIndex"
    using short by (simp add: typesSection_def packetMappings_fixture)
  from s5 [OF this]
  have 8: "unpackMapping id ?e ''play'' = Panics PanicIndex" .
  let ?f = "[(''play'', stateSection [] [(''0x00'', JNil)])]"
  have nil: "fillTable id [(''0x00'', JNil)] [] = Panics PanicTypeAssertion" by code_simp
  have "unnest ?f [''play'', ''toClient'', ''types''] = Inr (packetSection [])
      \<and> packetMappings (packetSection []) = Returns [] \<and> fillTable id [] [] = Returns []
      \<and> unnest ?f [''play'', ''toServer'', ''types''] = Inr (packetSection [(''0x00'', JNil)])
      \<and> packetMappings (packetSection [(''0x00'', JNil)]) = Returns [(''0x00'', JNil)]
      \<and> fillTable id [(''0x00'', JNil)] [] = Panics PanicTypeAssertion"
    using nil empty by (simp only: unnest_stateSection packetMappings_fixture, simp?)
  from s6 [OF this]
  have 9: "unpackMapping id ?f ''play'' = Panics PanicTypeAssertion" .
  let ?g = "[(''play'', stateSection [(''0x00'', JString ''spawn_entity'')] [(''0x00'', JString ''chat'')])]"
  have gc: "fillTable id [(''0x00'', JString ''spawn_entity'')] [] = Returns [(0, ''spawn_entity'')]"
    and gs: "fillTable id [(''0x00'', JString ''chat'')] [] = Returns [(0, ''chat'')]"
    by code_simp+
  have "unnest ?g [''play'', ''toClient'', ''types'']
        = Inr (packetSection [(''0x00'', JString ''spawn_entity'')])
      \<and> packetMappings (packetSection [(''0x00'', JString ''spawn_entity'')])
          = Returns [(''0x00'', JString ''spawn_entity'')]
      \<and> fillTable id [(''0x00'', JString ''spawn_entity'')] [] = Returns [(0, ''spawn_entity'')]
      \<and> unnest ?g [''play'', ''toServer'', ''types'']
          = Inr (packetSection [(''0x00'', JString ''chat'')])
      \<and> packetMappings (packetSection [(''0x00'', JString ''chat'')])
          = Returns [(''0x00'', JString ''chat'')]
      \<and> fillTable id [(''0x00'', JString ''chat'')] [] = Returns [(0, ''chat'')]"
    using gc gs by (simp only: unnest_stateSection packetMappings_fixture, simp?)
  from s7 [OF this]
  have 10: "unpackMapping id ?g ''play'' =
      Returns (Inr \<lparr>Clientbound = [(0, ''spawn_entity'')], Serverbound = [(0, ''chat'')]\<rparr>)" .
  from 1 2 3 4 5 6 7 8 9 10 show ?thesis by (intro conjI)
qed

text \<open>
  C5. Let \<^verbatim>\<open>strcase.ToCamel\<close> turn \<open>spawn_entity\<close> into \<open>SpawnEntity\<close> and \<open>chat\<close> into
  \<open>Chat\<close>. For a document whose state \<open>play\<close> has the clientbound mappings
  \<open>{kc: spawn_entity}\<close> and the serverbound mappings \<open>{ks: chat}\<close>, where \<open>kc\<close> and \<open>ks\<close>
  are texts of the integer 0, \<^verbatim>\<open>unpackMapping\<close> returns Clientbound \<open>{0: SpawnEntity}\<close> and
  Serverbound \<open>{0: Chat}\<close>, and \<^verbatim>\<open>EnsureUniqueNames\<close> leaves these tables as they are.
\<close>

theorem unpackMapping_play_fixture:
  assumes "toCamel ''spawn_entity'' = ''SpawnEntity''" and "toCamel ''chat'' = ''Chat''"
    and "unnest data [''play'', ''toClient'', ''types''] = Inr infoC"
    and "packetMappings infoC = Returns [(kc, JString ''spawn_entity'')]"
    and "mustAtoi kc = Returns 0"
    and "unnest data [''play'', ''toServer'', ''types''] = Inr infoS"
    and "packetMappings infoS = Returns [(ks, JString ''chat'')]"
    and "mustAtoi ks = Returns 0"
  shows "unpackMapping toCamel data ''play'' =
           Returns (Inr \<lparr>Clientbound = [(0, ''SpawnEntity'')], Serverbound = [(0, ''Chat'')]\<rparr>)
       \<and> EnsureUniqueNames \<lparr>Clientbound = [(0, ''SpawnEntity'')], Serverbound = [(0, ''Chat'')]\<rparr> =
           \<lparr>Clientbound = [(0, ''SpawnEntity'')], Serverbound = [(0, ''Chat'')]\<rparr>"
proof
  have "fillTable toCamel [(kc, JString ''spawn_entity'')] [] = Returns [(0, ''SpawnEntity'')]"
    and "fillTable toCamel [(ks, JString ''chat'')] [] = Returns [(0, ''Chat'')]"
    using assms by simp_all
  then show "unpackMapping toCamel data ''play'' =
           Returns (Inr \<lparr>Clientbound = [(0, ''SpawnEntity'')], Serverbound = [(0, ''Chat'')]\<rparr>)"
    using assms(3,4,6,7) unfolding unpackMapping_def andThen_def by simp
  show "EnsureUniqueNames \<lparr>Clientbound = [(0, ''SpawnEntity'')], Serverbound = [(0, ''Chat'')]\<rparr> =
           \<lparr>Clientbound = [(0, ''SpawnEntity'')], Serverbound = [(0, ''Chat'')]\<rparr>"
    by (rule unchanged_if_disjoint) (simp add: names_def)
qed

theorem unpackMapping_play_fixture_witness:
  "camel ''spawn_entity'' = ''SpawnEntity'' \<and> camel ''chat'' = ''Chat''
   \<and> mustAtoi ''0x00'' = Returns 0 \<and> mustAtoi ''0'' = Returns 0
   \<and> unpackMapping camel
        [(''play'', stateSection [(''0x00'', JString ''spawn_entity'')] [(''0'', JString ''chat'')])]
        ''play''
      = Returns (Inr \<lparr>Clientbound = [(0, ''SpawnEntity'')], Serverbound = [(0, ''Chat'')]\<rparr>)"
proof -
  have 1: "camel ''spawn_entity'' = ''SpawnEntity''" and 2: "camel ''chat'' = ''Chat''"
    by code_simp+
  have 3: "mustAtoi ''0x00'' = Returns 0" and 4: "mustAtoi ''0'' = Returns 0"
    by code_simp+
  from unpackMapping_play_fixture [OF 1 2 unnest_stateSection(1) packetMappings_fixture 3
      unnest_stateSection(2) packetMappings_fixture 4] 1 2 3 4
  show ?thesis by simp
qed

section \<open>Claims on the driver\<close>

text \<open>
  C8. The claim reads: the error reported when the extraction of a state fails names that
  state. \<^verbatim>\<open>downloadInfo\<close> prefixes an error of the state \<open>login\<close> with \<open>login\<close> and one of
  the state \<open>play\<close> with \<open>play\<close>, but an error of the state \<open>status\<close> with \<open>play\<close> as
  well (line 161). The three documents below lack the \<^verbatim>\<open>toClient\<close> section of one state
  each.
\<close>

theorem downloadInfo_status_prefix:
  "downloadInfo toCamel [(''login'', JMap []), (''play'', stateSection [] []), (''status'', stateSection [] [])]
     = Returns (Inl (Prefixed ''login'' (KeyNotFound ''toClient'')))
   \<and> downloadInfo toCamel [(''login'', stateSection [] []), (''play'', JMap []), (''status'', stateSection [] [])]
     = Returns (Inl (Prefixed ''play'' (KeyNotFound ''toClient'')))
   \<and> downloadInfo toCamel [(''login'', stateSection [] []), (''play'', stateSection [] []), (''status'', JMap [])]
     = Returns (Inl (Prefixed ''play'' (KeyNotFound ''toClient'')))"
  by (simp add: downloadInfo_def unpackMapping_def andThen_def stateSection_def typesSection_def
      packetSection_def packetMappings_def field_def index_def)

section \<open>The parser on numerals\<close>

text \<open>
  One round of the digit loop on a digit \<open>x\<close> of the base \<open>b\<close>, for the 32-bit limit
  \<open>maxVal = 2 ^ 32 - 1\<close>: the accumulator stays below \<open>2 ^ 32\<close>, so neither the
  multiplication nor the addition wraps, and the loop stops with a range error as soon as
  the value passes \<open>maxVal\<close>.
\<close>

lemma digit_table:
  "\<forall>x \<in> set [0..<36].
     (of_char (digitChar x) :: byte) \<noteq> 0x5F
     \<and> ((0x30 \<le> (of_char (digitChar x) :: byte) \<and> (of_char (digitChar x) :: byte) \<le> 0x39)
         \<or> (0x61 \<le> lower (of_char (digitChar x)) \<and> lower (of_char (digitChar x)) \<le> 0x7A))
     \<and> (if 0x30 \<le> (of_char (digitChar x) :: byte) \<and> (of_char (digitChar x) :: byte) \<le> 0x39
          then of_char (digitChar x) - 0x30 else lower (of_char (digitChar x)) - 0x61 + 10)
         = (of_nat x :: byte)"
  by code_simp

lemma digit_byte:
  assumes "x < 36"
  shows "(of_char (digitChar x) :: byte) \<noteq> 0x5F"
    and "(0x30 \<le> (of_char (digitChar x) :: byte) \<and> (of_char (digitChar x) :: byte) \<le> 0x39)
         \<or> (0x61 \<le> lower (of_char (digitChar x)) \<and> lower (of_char (digitChar x)) \<le> 0x7A)"
    and "(if 0x30 \<le> (of_char (digitChar x) :: byte) \<and> (of_char (digitChar x) :: byte) \<le> 0x39
          then of_char (digitChar x) - 0x30 else lower (of_char (digitChar x)) - 0x61 + 10)
         = (of_nat x :: byte)"
proof -
  from assms have "x \<in> set [0..<36]" by simp
  with digit_table show
    "(of_char (digitChar x) :: byte) \<noteq> 0x5F"
    "(0x30 \<le> (of_char (digitChar x) :: byte) \<and> (of_char (digitChar x) :: byte) \<le> 0x39)
         \<or> (0x61 \<le> lower (of_char (digitChar x)) \<and> lower (of_char (digitChar x)) \<le> 0x7A)"
    "(if 0x30 \<le> (of_char (digitChar x) :: byte) \<and> (of_char (digitChar x) :: byte) \<le> 0x39
          then of_char (digitChar x) - 0x30 else lower (of_char (digitChar x)) - 0x61 + 10)
         = (of_nat x :: byte)"
    by blast+
qed

lemma parseDigits_digit:
  fixes n cutoff :: uint64
  assumes x: "x < b" and b: "b \<le> 36" and n: "unat n < 2 ^ 32" and cut: "2 ^ 32 \<le> unat cutoff"
  shows "parseDigits base0 (int b) cutoff (2 ^ 32 - 1) s0 (digitChar x # s) n False =
     (if unat n * b + x < 2 ^ 32
      then parseDigits base0 (int b) cutoff (2 ^ 32 - 1) s0 s (of_nat (unat n * b + x)) False
      else (2 ^ 32 - 1, Some (rangeError ''ParseUint'' s0)))"
proof -
  have x36: "x < 36" using x b by simp
  note d = digit_byte [OF x36]
  have wb: "(word_of_int (int b) :: uint64) = of_nat b" "(word_of_int (int b) :: byte) = of_nat b"
    by simp_all
  have base: "\<not> (of_nat x :: byte) \<ge> of_nat b"
    using x b by (simp add: word_of_nat_less_eq_iff take_bit_nat_eq_self)
  have nc: "\<not> n \<ge> cutoff" using n cut by (simp add: word_le_nat_alt)
  have "unat n * b < 2 ^ 64"
  proof -
    have "unat n * b \<le> 2 ^ 32 * 36" using n b by (intro mult_mono) simp_all
    then show ?thesis by simp
  qed
  then have ub: "unat n * unat (of_nat b :: uint64) < 2 ^ LENGTH(64)"
    using b by (simp add: unat_of_nat)
  have m: "unat (n * of_nat b) = unat n * b"
    using ub b unat_mult_lem [of n "of_nat b"] by (simp add: unat_of_nat)
  have uc: "(ucast (of_nat x :: byte) :: uint64) = of_nat x"
    using x36 by (simp add: unsigned_of_nat take_bit_nat_eq_self)
  have ux: "unat (of_nat x :: uint64) = x" using x36 by (simp add: unat_of_nat)
  have "unat n * b + x < 2 ^ 64"
  proof -
    have "unat n * b + x \<le> 2 ^ 32 * 36 + 36" using n b x36 by (intro add_mono mult_mono) simp_all
    then show ?thesis by simp
  qed
  then have a: "unat (n * of_nat b + of_nat x) = unat n * b + x"
    using unat_add_lem [of "n * of_nat b" "of_nat x :: uint64"] m ux by simp
  then have eq: "n * of_nat b + of_nat x = of_nat (unat n * b + x)"
    by (metis of_nat_unat ucast_id)
  have lt: "\<not> n * of_nat b + of_nat x < n * of_nat b"
    unfolding word_less_nat_alt a m by simp
  have gt: "n * of_nat b + of_nat x > (2 ^ 32 - 1 :: uint64) \<longleftrightarrow> \<not> unat n * b + x < 2 ^ 32"
    unfolding word_less_nat_alt a by auto
  show ?thesis
    using d(1) d(2) base nc lt gt
    by (simp only: parseDigits.simps Let_def d(3) uc wb eq [symmetric]) auto
qed

lemma foldl_digits_ge: "a \<le> foldl (\<lambda>a x. a * b + x) a xs" if "1 \<le> (b :: nat)"
proof (induction xs arbitrary: a)
  case Nil
  then show ?case by simp
next
  case (Cons x xs)
  have "a \<le> a * b + x" using that by (simp add: trans_le_add1)
  also have "\<dots> \<le> foldl (\<lambda>a x. a * b + x) (a * b + x) xs" by (rule Cons.IH)
  finally show ?case by simp
qed

lemma parseDigits_digits:
  fixes n cutoff :: uint64
  assumes b: "b \<le> 36" and cut: "2 ^ 32 \<le> unat cutoff"
    and xs: "\<forall>x \<in> set xs. x < b" and n: "unat n < 2 ^ 32"
  shows "parseDigits base0 (int b) cutoff (2 ^ 32 - 1) s0 (map digitChar xs) n False =
     (if foldl (\<lambda>a x. a * b + x) (unat n) xs < 2 ^ 32
      then (of_nat (foldl (\<lambda>a x. a * b + x) (unat n) xs), None)
      else (2 ^ 32 - 1, Some (rangeError ''ParseUint'' s0)))"
  using xs n
proof (induction xs arbitrary: n)
  case Nil
  have "parseDigits base0 (int b) cutoff (2 ^ 32 - 1) s0 [] n False = (n, None)"
    by (simp only: parseDigits.simps) simp
  with Nil show ?case by simp
next
  case (Cons x xs)
  have x: "x < b" and xs: "\<forall>x \<in> set xs. x < b" using Cons.prems(1) by simp_all
  let ?v = "unat n * b + x"
  note step = parseDigits_digit [OF x b Cons.prems(2) cut, of base0 s0 "map digitChar xs"]
  show ?case
  proof (cases "?v < 2 ^ 32")
    case True
    then have u: "unat (of_nat ?v :: uint64) = ?v" by (subst unat_of_nat) simp
    with True have small: "unat (of_nat ?v :: uint64) < 2 ^ 32" by simp
    have "parseDigits base0 (int b) cutoff (2 ^ 32 - 1) s0 (map digitChar (x # xs)) n False =
        parseDigits base0 (int b) cutoff (2 ^ 32 - 1) s0 (map digitChar xs) (of_nat ?v) False"
      using step True by (simp only: list.map if_True)
    also have "\<dots> =
       (if foldl (\<lambda>a x. a * b + x) (unat (of_nat ?v :: uint64)) xs < 2 ^ 32
        then (of_nat (foldl (\<lambda>a x. a * b + x) (unat (of_nat ?v :: uint64)) xs), None)
        else (2 ^ 32 - 1, Some (rangeError ''ParseUint'' s0)))"
      by (rule Cons.IH [OF xs small])
    also have "\<dots> =
       (if foldl (\<lambda>a x. a * b + x) (unat n) (x # xs) < 2 ^ 32
        then (of_nat (foldl (\<lambda>a x. a * b + x) (unat n) (x # xs)), None)
        else (2 ^ 32 - 1, Some (rangeError ''ParseUint'' s0)))"
      by (simp only: u foldl_Cons)
    finally show ?thesis .
  next
    case False
    have "?v \<le> foldl (\<lambda>a x. a * b + x) ?v xs"
      using x by (intro foldl_digits_ge) simp
    with False have big: "\<not> foldl (\<lambda>a x. a * b + x) (unat n) (x # xs) < 2 ^ 32" by simp
    have "parseDigits base0 (int b) cutoff (2 ^ 32 - 1) s0 (map digitChar (x # xs)) n False =
        (2 ^ 32 - 1, Some (rangeError ''ParseUint'' s0))"
      using step False by (simp only: list.map if_False)
    then show ?thesis using big by (simp only: if_False)
  qed
qed

lemma digitsOf_less: "2 \<le> b \<Longrightarrow> \<forall>x \<in> set (digitsOf b n). x < b"
proof (induction b n rule: digitsOf.induct)
  case (1 b n)
  then show ?case by (subst digitsOf.simps) auto
qed

lemma digitsOf_value: "2 \<le> b \<Longrightarrow> foldl (\<lambda>a x. a * b + x) 0 (digitsOf b n) = n"
proof (induction b n rule: digitsOf.induct)
  case (1 b n)
  then show ?case by (subst digitsOf.simps) auto
qed

lemma digitsOf_hd:
  "2 \<le> b \<Longrightarrow> digitsOf b n \<noteq> [] \<and> (0 < n \<longrightarrow> 0 < hd (digitsOf b n))"
proof (induction b n rule: digitsOf.induct)
  case (1 b n)
  show ?case
  proof (cases "n < b")
    case True
    then show ?thesis by (subst (1 2) digitsOf.simps) simp
  next
    case False
    then have "0 < n div b" using 1(2) by (simp add: div_greater_zero_iff)
    with 1 False show ?thesis by (subst (1 2) digitsOf.simps) simp
  qed
qed

lemma digit_chars:
  "\<forall>x \<in> set [0..<36]. digitChar x \<noteq> CHR ''-'' \<and> digitChar x \<noteq> CHR ''+''
      \<and> (0 < x \<longrightarrow> digitChar x \<noteq> CHR ''0'')"
  by code_simp

lemma digitChar_not_sign:
  assumes "x < 36"
  shows "digitChar x \<noteq> CHR ''-''" and "digitChar x \<noteq> CHR ''+''"
    and "0 < x \<Longrightarrow> digitChar x \<noteq> CHR ''0''"
proof -
  from assms have "x \<in> set [0..<36]" by simp
  with digit_chars show "digitChar x \<noteq> CHR ''-''" and "digitChar x \<noteq> CHR ''+''"
    and "0 < x \<Longrightarrow> digitChar x \<noteq> CHR ''0''"
    by blast+
qed

lemma unat_minus1_64: "unat (-1 :: uint64) = 2 ^ 64 - 1"
  by (simp add: unsigned_minus_1_eq_mask mask_eq_exp_minus_1)

lemma cutoff10: "2 ^ 32 \<le> unat ((-1 :: uint64) div word_of_int 10 + 1)"
proof -
  have "unat ((-1 :: uint64) div 10) = (2 ^ 64 - 1) div 10"
    by (simp add: unat_div unat_minus1_64)
  then have d: "unat ((-1 :: uint64) div 10) = 1844674407370955161" by simp
  have "unat ((-1 :: uint64) div 10 + 1) = unat ((-1 :: uint64) div 10) + unat (1 :: uint64)"
    by (subst unat_add_lem [symmetric]) (simp add: d)
  then show ?thesis by (simp add: d)
qed

lemma cutoff16: "2 ^ 32 \<le> unat ((-1 :: uint64) div word_of_int 16 + 1)"
proof -
  have "unat ((-1 :: uint64) div 16) = (2 ^ 64 - 1) div 16"
    by (simp add: unat_div unat_minus1_64)
  then have d: "unat ((-1 :: uint64) div 16) = 1152921504606846975" by simp
  have "unat ((-1 :: uint64) div 16 + 1) = unat ((-1 :: uint64) div 16) + unat (1 :: uint64)"
    by (subst unat_add_lem [symmetric]) (simp add: d)
  then show ?thesis by (simp add: d)
qed

lemma maxVal32: "push_bit (nat 32) (1 :: uint64) - 1 = 2 ^ 32 - 1"
  by simp

text \<open>
  \<^verbatim>\<open>ParseUint\<close>, \<^verbatim>\<open>ParseInt\<close> and \<^verbatim>\<open>mustAtoi\<close> on the decimal numeral of \<open>n\<close>, on the
  numeral with a minus sign, and on the hexadecimal numeral with the prefix \<^verbatim>\<open>0x\<close>.
\<close>

lemma ParseUint_decimal:
  "ParseUint (decimal n) 0 32 =
     (if n < 2 ^ 32 then (of_nat n, None)
      else (2 ^ 32 - 1, Some (rangeError ''ParseUint'' (decimal n))))"
proof (cases "n = 0")
  case True
  have "ParseUint (decimal 0) 0 32 = (0, None)" by code_simp
  with True show ?thesis by simp
next
  case False
  let ?ds = "digitsOf 10 n"
  have less: "\<forall>x \<in> set ?ds. x < 10" by (rule digitsOf_less) simp
  have val: "foldl (\<lambda>a x. a * 10 + x) 0 ?ds = n" by (rule digitsOf_value) simp
  have hd: "?ds \<noteq> [] \<and> (0 < n \<longrightarrow> 0 < hd ?ds)" by (rule digitsOf_hd) simp
  then have ne: "decimal n \<noteq> []" by (simp add: decimal_def)
  have "hd ?ds \<in> set ?ds" using hd by simp
  with less have "hd ?ds < 10" by blast
  then have "hd ?ds < 36" by simp
  then have nz: "hd (decimal n) \<noteq> CHR ''0''"
    using hd False digitChar_not_sign(3) [of "hd ?ds"] by (simp add: decimal_def hd_map)
  have loop: "parseDigits True (int 10) ((-1 :: uint64) div word_of_int 10 + 1) (2 ^ 32 - 1)
         (decimal n) (map digitChar ?ds) 0 False =
       (if n < 2 ^ 32 then (of_nat n, None)
        else (2 ^ 32 - 1, Some (rangeError ''ParseUint'' (decimal n))))"
    using parseDigits_digits [of 10 "(-1 :: uint64) div word_of_int 10 + 1" ?ds 0 True "decimal n"]
      cutoff10 less val by simp
  show ?thesis
    unfolding ParseUint_def
    using ne nz loop by (simp add: decimal_def)
qed

lemma decimal_shape:
  "decimal n \<noteq> []" "hd (decimal n) \<noteq> CHR ''-''" "hd (decimal n) \<noteq> CHR ''+''"
proof -
  let ?ds = "digitsOf 10 n"
  have less: "\<forall>x \<in> set ?ds. x < 10" by (rule digitsOf_less) simp
  have ne: "?ds \<noteq> []" using digitsOf_hd [of 10 n] by simp
  then have "hd ?ds \<in> set ?ds" by simp
  with less have "hd ?ds < 10" by blast
  then have h: "hd ?ds < 36" by simp
  show "decimal n \<noteq> []" using ne by (simp add: decimal_def)
  show "hd (decimal n) \<noteq> CHR ''-''" "hd (decimal n) \<noteq> CHR ''+''"
    using ne digitChar_not_sign(1,2) [OF h] by (simp_all add: decimal_def hd_map)
qed

lemma cutoff31: "push_bit (nat (32 - 1)) (1 :: uint64) = 2 ^ 31"
  by simp

lemma of_nat_ge_2p31:
  "n < 2 ^ 32 \<Longrightarrow> (2 ^ 31 :: uint64) \<le> of_nat n \<longleftrightarrow> 2 ^ 31 \<le> n"
  by (simp add: word_le_nat_alt unat_of_nat)

lemma of_nat_gt_2p31:
  "n < 2 ^ 32 \<Longrightarrow> (2 ^ 31 :: uint64) < of_nat n \<longleftrightarrow> 2 ^ 31 < n"
  by (simp add: word_less_nat_alt unat_of_nat)

lemma ParseInt_decimal:
  "ParseInt (decimal n) 0 32 =
     (if n < 2 ^ 31 then (of_nat n, None)
      else (2 ^ 31 - 1, Some (rangeError ''ParseInt'' (decimal n))))"
proof (cases "n < 2 ^ 32")
  case True
  then show ?thesis
    unfolding ParseInt_def Let_def
    using of_nat_ge_2p31 [of n] by (auto simp: decimal_shape ParseUint_decimal)
next
  case False
  then show ?thesis
    unfolding ParseInt_def Let_def
    by (simp add: decimal_shape ParseUint_decimal rangeError_def)
qed

lemma ParseInt_minus_decimal:
  "ParseInt (CHR ''-'' # decimal n) 0 32 =
     (if n \<le> 2 ^ 31 then (- of_nat n, None)
      else (- (2 ^ 31), Some (rangeError ''ParseInt'' (CHR ''-'' # decimal n))))"
proof (cases "n < 2 ^ 32")
  case True
  then show ?thesis
    unfolding ParseInt_def Let_def
    using of_nat_gt_2p31 [of n] by (auto simp: decimal_shape ParseUint_decimal)
next
  case False
  then show ?thesis
    unfolding ParseInt_def Let_def
    by (simp add: decimal_shape ParseUint_decimal rangeError_def)
qed

lemma ucast_of_int_32: "(ucast (word_of_int k :: uint64) :: int32) = word_of_int k"
  by (rule bit_word_eqI) (auto simp: bit_simps)

lemma ucast_of_nat_32: "(ucast (of_nat n :: uint64) :: int32) = of_nat n"
  using ucast_of_int_32 [of "int n"] by simp

lemma ucast_minus_of_nat_32: "(ucast (- of_nat n :: uint64) :: int32) = - of_nat n"
  using ucast_of_int_32 [of "- int n"] by simp

lemma mustAtoi_decimal:
  "mustAtoi (decimal n) =
     (if n < 2 ^ 31 then Returns (of_nat n)
      else Panics (PanicError (rangeError ''ParseInt'' (decimal n))))"
  by (simp add: mustAtoi_def ParseInt_decimal ucast_of_nat_32)

lemma mustAtoi_minus_decimal:
  "mustAtoi (CHR ''-'' # decimal n) =
     (if n \<le> 2 ^ 31 then Returns (- of_nat n)
      else Panics (PanicError (rangeError ''ParseInt'' (CHR ''-'' # decimal n))))"
  by (simp add: mustAtoi_def ParseInt_minus_decimal ucast_minus_of_nat_32)

lemma sint_of_int_32:
  "- (2 ^ 31) \<le> k \<Longrightarrow> k < 2 ^ 31 \<Longrightarrow> sint (word_of_int k :: int32) = k"
  by (simp add: signed_of_int signed_take_bit_int_eq_self)

lemma sint_minus_of_nat_32:
  "n \<le> 2 ^ 31 \<Longrightarrow> sint (- of_nat n :: int32) = - int n"
  using sint_of_int_32 [of "- int n"] by simp

lemma sint_of_nat_32:
  "n < 2 ^ 31 \<Longrightarrow> sint (of_nat n :: int32) = int n"
  using sint_of_int_32 [of "int n"] by simp

lemma x_prefix:
  "lower (of_char CHR ''x'') \<noteq> 0x62" "lower (of_char CHR ''x'') \<noteq> 0x6F"
  "lower (of_char CHR ''x'') = 0x78"
  by (simp_all add: lower_def)

lemma ParseUint_hexadecimal:
  "ParseUint (CHR ''0'' # CHR ''x'' # hexadecimal n) 0 32 =
     (if n < 2 ^ 32 then (of_nat n, None)
      else (2 ^ 32 - 1, Some (rangeError ''ParseUint'' (CHR ''0'' # CHR ''x'' # hexadecimal n))))"
proof -
  let ?ds = "digitsOf 16 n"
  have less: "\<forall>x \<in> set ?ds. x < 16" by (rule digitsOf_less) simp
  have val: "foldl (\<lambda>a x. a * 16 + x) 0 ?ds = n" by (rule digitsOf_value) simp
  have "?ds \<noteq> []" using digitsOf_hd [of 16 n] by simp
  then have len: "length (hexadecimal n) \<ge> 1"
    by (simp add: hexadecimal_def Suc_le_eq)
  have loop: "parseDigits True (int 16) ((-1 :: uint64) div word_of_int 16 + 1) (2 ^ 32 - 1)
         (CHR ''0'' # CHR ''x'' # hexadecimal n) (map digitChar ?ds) 0 False =
       (if n < 2 ^ 32 then (of_nat n, None)
        else (2 ^ 32 - 1, Some (rangeError ''ParseUint'' (CHR ''0'' # CHR ''x'' # hexadecimal n))))"
    using parseDigits_digits [of 16 "(-1 :: uint64) div word_of_int 16 + 1" ?ds 0 True
        "CHR ''0'' # CHR ''x'' # hexadecimal n"]
      cutoff16 less val by simp
  show ?thesis
    unfolding ParseUint_def
    using len loop x_prefix by (simp add: hexadecimal_def)
qed

lemma ParseInt_hexadecimal:
  "ParseInt (CHR ''0'' # CHR ''x'' # hexadecimal n) 0 32 =
     (if n < 2 ^ 31 then (of_nat n, None)
      else (2 ^ 31 - 1, Some (rangeError ''ParseInt'' (CHR ''0'' # CHR ''x'' # hexadecimal n))))"
proof (cases "n < 2 ^ 32")
  case True
  then show ?thesis
    unfolding ParseInt_def Let_def
    using of_nat_ge_2p31 [of n] by (auto simp: ParseUint_hexadecimal)
next
  case False
  then show ?thesis
    unfolding ParseInt_def Let_def
    by (simp add: ParseUint_hexadecimal rangeError_def)
qed

lemma mustAtoi_hexadecimal:
  "mustAtoi (CHR ''0'' # CHR ''x'' # hexadecimal n) =
     (if n < 2 ^ 31 then Returns (of_nat n)
      else Panics (PanicError (rangeError ''ParseInt'' (CHR ''0'' # CHR ''x'' # hexadecimal n))))"
  by (simp add: mustAtoi_def ParseInt_hexadecimal ucast_of_nat_32)

lemma mustAtoi_error:
  "snd (ParseInt s 0 32) = Some err \<Longrightarrow> mustAtoi s = Panics (PanicError err)"
  by (cases "ParseInt s 0 32") (simp add: mustAtoi_def)

section \<open>Claims on mustAtoi\<close>

text \<open>
  C7. The texts \<open>0\<close>, \<open>0x0\<close> and \<open>0X00\<close> all parse to the integer 0. Decimal and
  hexadecimal forms are both accepted: for every \<open>n\<close> below \<open>2 ^ 31\<close>, \<^verbatim>\<open>mustAtoi\<close> returns
  the \<^verbatim>\<open>int32\<close> of value \<open>n\<close> on the decimal numeral of \<open>n\<close> and on its hexadecimal numeral
  prefixed with \<^verbatim>\<open>0x\<close>.
\<close>

theorem mustAtoi_formats:
  "mustAtoi ''0'' = Returns 0 \<and> mustAtoi ''0x0'' = Returns 0 \<and> mustAtoi ''0X00'' = Returns 0
   \<and> (n < 2 ^ 31 \<longrightarrow>
        mustAtoi (decimal n) = Returns (of_nat n)
        \<and> mustAtoi (''0x'' @ hexadecimal n) = Returns (of_nat n)
        \<and> sint (of_nat n :: int32) = int n)"
proof -
  have "mustAtoi ''0'' = Returns 0" "mustAtoi ''0x0'' = Returns 0" "mustAtoi ''0X00'' = Returns 0"
    by code_simp+
  moreover have "mustAtoi (decimal n) = Returns (of_nat n)" if "n < 2 ^ 31"
    using that by (simp add: mustAtoi_decimal)
  moreover have "mustAtoi (''0x'' @ hexadecimal n) = Returns (of_nat n)" if "n < 2 ^ 31"
    using that by (simp add: mustAtoi_hexadecimal)
  moreover have "sint (of_nat n :: int32) = int n" if "n < 2 ^ 31"
    using that by (rule sint_of_nat_32)
  ultimately show ?thesis by blast
qed

theorem mustAtoi_formats_witness:
  "(31 :: nat) < 2 ^ 31 \<and> decimal 31 = ''31'' \<and> hexadecimal 31 = ''1f''
   \<and> mustAtoi ''31'' = Returns 31 \<and> mustAtoi ''0x1f'' = Returns 31 \<and> sint (31 :: int32) = 31"
proof -
  have d: "decimal 31 = ''31''" and h: "hexadecimal 31 = ''1f''"
    by (simp_all add: decimal_def hexadecimal_def digitsOf.simps digitChar_def)
  have "(31 :: nat) < 2 ^ 31" by simp
  with mustAtoi_formats [of 31] have "mustAtoi (decimal 31) = Returns (of_nat 31)
        \<and> mustAtoi (''0x'' @ hexadecimal 31) = Returns (of_nat 31)
        \<and> sint (of_nat 31 :: int32) = int 31"
    by blast
  then show ?thesis unfolding d h by simp
qed

text \<open>
  C10. \<^verbatim>\<open>mustAtoi\<close> parses with base 0 into 32 signed bits. The key \<open>010\<close> is read as
  octal and gives 8. A negative key is accepted: \<open>-1\<close> gives the ID \<open>-1\<close>, and the decimal
  numeral of any \<open>n\<close> from 1 to \<open>2 ^ 31\<close> with a minus sign gives the negative ID \<open>-n\<close>.
  A key outside the \<^verbatim>\<open>int32\<close> range, the decimal numeral of an \<open>n \<ge> 2 ^ 31\<close> or the
  numeral of an \<open>n > 2 ^ 31\<close> with a minus sign, makes \<^verbatim>\<open>mustAtoi\<close> panic with the parser's
  range error; and whatever error \<^verbatim>\<open>strconv.ParseInt\<close> reports, \<^verbatim>\<open>mustAtoi\<close> panics with
  it and returns nothing.
\<close>

theorem mustAtoi_base0_int32:
  "mustAtoi ''010'' = Returns 8
   \<and> mustAtoi ''-1'' = Returns (- 1) \<and> sint (- 1 :: int32) = - 1
   \<and> (0 < n \<and> n \<le> 2 ^ 31 \<longrightarrow>
        (\<exists>w. mustAtoi (CHR ''-'' # decimal n) = Returns w \<and> sint w = - int n \<and> sint w < 0))
   \<and> (2 ^ 31 \<le> n \<longrightarrow>
        mustAtoi (decimal n) = Panics (PanicError (rangeError ''ParseInt'' (decimal n))))
   \<and> (2 ^ 31 < n \<longrightarrow>
        mustAtoi (CHR ''-'' # decimal n) =
          Panics (PanicError (rangeError ''ParseInt'' (CHR ''-'' # decimal n))))
   \<and> (snd (ParseInt s 0 32) = Some err \<longrightarrow> mustAtoi s = Panics (PanicError err))"
proof -
  have "mustAtoi ''010'' = Returns 8" "mustAtoi ''-1'' = Returns (- 1)"
    by code_simp+
  moreover have "sint (- 1 :: int32) = - 1" by simp
  moreover have "\<exists>w. mustAtoi (CHR ''-'' # decimal n) = Returns w \<and> sint w = - int n \<and> sint w < 0"
    if "0 < n \<and> n \<le> 2 ^ 31"
    using that sint_minus_of_nat_32 [of n] by (simp add: mustAtoi_minus_decimal)
  moreover have "mustAtoi (decimal n) = Panics (PanicError (rangeError ''ParseInt'' (decimal n)))"
    if "2 ^ 31 \<le> n"
    using that by (simp add: mustAtoi_decimal)
  moreover have "mustAtoi (CHR ''-'' # decimal n) =
          Panics (PanicError (rangeError ''ParseInt'' (CHR ''-'' # decimal n)))"
    if "2 ^ 31 < n"
    using that by (simp add: mustAtoi_minus_decimal)
  moreover note mustAtoi_error [of s err]
  ultimately show ?thesis by blast
qed

theorem mustAtoi_base0_int32_witness:
  "decimal 2147483648 = ''2147483648'' \<and> decimal 2147483649 = ''2147483649''
   \<and> mustAtoi ''2147483648'' =
        Panics (PanicError \<lparr>Func = ''ParseInt'', Num = ''2147483648'', Err = ErrRange\<rparr>)
   \<and> (\<exists>w. mustAtoi ''-2147483648'' = Returns w \<and> sint w = - 2147483648)
   \<and> mustAtoi ''-2147483649'' =
        Panics (PanicError \<lparr>Func = ''ParseInt'', Num = ''-2147483649'', Err = ErrRange\<rparr>)
   \<and> snd (ParseInt ''abc'' 0 32) = Some \<lparr>Func = ''ParseInt'', Num = ''abc'', Err = ErrSyntax\<rparr>
   \<and> mustAtoi ''abc'' = Panics (PanicError \<lparr>Func = ''ParseInt'', Num = ''abc'', Err = ErrSyntax\<rparr>)"
proof -
  have d: "decimal 2147483648 = ''2147483648''" and d': "decimal 2147483649 = ''2147483649''"
    by (simp_all add: decimal_def digitsOf.simps digitChar_def)
  have e: "snd (ParseInt ''abc'' 0 32) = Some \<lparr>Func = ''ParseInt'', Num = ''abc'', Err = ErrSyntax\<rparr>"
    by code_simp
  have a: "(2 :: nat) ^ 31 \<le> 2147483648" and b: "0 < (2147483648 :: nat) \<and> (2147483648 :: nat) \<le> 2 ^ 31"
    and c: "(2 :: nat) ^ 31 < 2147483649"
    by simp_all
  from mustAtoi_base0_int32 [of 2147483648] a
  have 1: "mustAtoi (decimal 2147483648) =
      Panics (PanicError (rangeError ''ParseInt'' (decimal 2147483648)))"
    by blast
  from mustAtoi_base0_int32 [of 2147483648] b
  have 2: "\<exists>w. mustAtoi (CHR ''-'' # decimal 2147483648) = Returns w \<and> sint w = - int 2147483648"
    by blast
  from mustAtoi_base0_int32 [of 2147483649] c
  have 3: "mustAtoi (CHR ''-'' # decimal 2147483649) =
      Panics (PanicError (rangeError ''ParseInt'' (CHR ''-'' # decimal 2147483649)))"
    by blast
  from mustAtoi_base0_int32 [of _ "''abc''"] e
  have 4: "mustAtoi ''abc'' = Panics (PanicError \<lparr>Func = ''ParseInt'', Num = ''abc'', Err = ErrSyntax\<rparr>)"
    by blast
  from 1 2 3 4 e show ?thesis unfolding d d' by (simp add: rangeError_def)
qed

end
